theory Spec2Isabelle
  imports Main "HOL-Library.AList"
begin

section \<open>Virtual queue manager: the embedding\<close>

text \<open>
  The development embeds \<^verbatim>\<open>virtual_queue_manager.py\<close>. Python's unbounded integers
  are \<open>int\<close>; strings are \<open>string\<close>, a character being a code point below 256; a
  \<^verbatim>\<open>dict\<close> is an association list with distinct keys in insertion order
  (assignment to a present key replaces the value in place, assignment to an absent key
  appends, which is \<open>AList.update\<close>); a \<^verbatim>\<open>deque\<close> is a list whose head is the
  front. Methods that mutate \<^verbatim>\<open>self\<close> take the object and return it updated,
  together with the method's return value.

  \<^verbatim>\<open>str.upper\<close> is the case mapping of the Python runtime. It is not a map on
  single characters (it may lengthen a string) and its values need not be code points
  below 256, so it is not defined here: every function that calls it takes it as its
  first argument \<open>upper\<close>, and every theorem holds for whatever function that is.
\<close>

subsection \<open>String helpers of the Python runtime\<close>

text \<open>
  \<^verbatim>\<open>str.isspace\<close> on a character below 256: tab, line feed, vertical tab, form feed,
  carriage return (9 to 13), the four separators 0x1C to 0x1F and the space (28 to 32),
  the next-line control 0x85 and the no-break space 0xA0.
\<close>

definition is_space :: "char \<Rightarrow> bool" where
  "is_space c =
     ((9 \<le> (of_char c :: nat) \<and> (of_char c :: nat) \<le> 13)
      \<or> (28 \<le> (of_char c :: nat) \<and> (of_char c :: nat) \<le> 32)
      \<or> (of_char c :: nat) = 133
      \<or> (of_char c :: nat) = 160)"

text \<open>\<^verbatim>\<open>str.strip()\<close>: drop the white space at both ends.\<close>

definition strip :: "string \<Rightarrow> string" where
  "strip s = rev (dropWhile is_space (rev (dropWhile is_space s)))"

text \<open>The decimal digits of a natural number, most significant first.\<close>

fun str_of_nat :: "nat \<Rightarrow> string" where
  "str_of_nat n =
     (if n < 10 then [char_of (48 + n)]
      else str_of_nat (n div 10) @ [char_of (48 + n mod 10)])"

declare str_of_nat.simps [simp del]

text \<open>Pad with zeros on the left up to a width; a longer string is left as it is.\<close>

definition zfill :: "nat \<Rightarrow> string \<Rightarrow> string" where
  "zfill w s = replicate (w - length s) (CHR ''0'') @ s"

text \<open>
  The format specification \<^verbatim>\<open>03d\<close>: minimum width 3, zero padded, the sign (if any)
  first and counted in the width.
\<close>

definition format_03d :: "int \<Rightarrow> string" where
  "format_03d n =
     (if n < 0 then CHR ''-'' # zfill 2 (str_of_nat (nat (- n)))
      else zfill 3 (str_of_nat (nat n)))"

subsection \<open>Booking and ServiceQueue\<close>

record Booking =
  token :: string
  user_name :: string
  service_id :: string
  estimated_wait_minutes_at_booking :: int

record ServiceQueue =
  service_id :: string
  display_name :: string
  daily_capacity :: int
  avg_service_minutes :: int
  waiting :: "Booking list"
  total_bookings_created :: int
  next_token_number :: int
  served_count :: int

text \<open>\<^verbatim>\<open>ServiceQueue.__init__\<close>\<close>

definition ServiceQueue_init :: "string \<Rightarrow> string \<Rightarrow> int \<Rightarrow> int \<Rightarrow> ServiceQueue" where
  "ServiceQueue_init sid dname cap avg =
     \<lparr>service_id = sid, display_name = dname, daily_capacity = cap,
      avg_service_minutes = avg, waiting = [], total_bookings_created = 0,
      next_token_number = 1, served_count = 0\<rparr>"

definition is_full :: "ServiceQueue \<Rightarrow> bool" where
  "is_full s = (total_bookings_created s \<ge> daily_capacity s)"

definition people_waiting :: "ServiceQueue \<Rightarrow> int" where
  "people_waiting s = int (length (waiting s))"

definition estimate_wait_minutes :: "ServiceQueue \<Rightarrow> int" where
  "estimate_wait_minutes s = int (length (waiting s)) * avg_service_minutes s"

definition create_booking ::
  "(string \<Rightarrow> string) \<Rightarrow> ServiceQueue \<Rightarrow> string \<Rightarrow> Booking option \<times> ServiceQueue" where
  "create_booking upper s uname =
     (if is_full s then (None, s)
      else
        let tok = upper (ServiceQueue.service_id s) @ ''-'' @ format_03d (next_token_number s);
            estimated_wait = estimate_wait_minutes s;
            booking = \<lparr>token = tok, user_name = uname, Booking.service_id = ServiceQueue.service_id s,
                       estimated_wait_minutes_at_booking = estimated_wait\<rparr>
        in (Some booking,
            s\<lparr>waiting := waiting s @ [booking],
              total_bookings_created := total_bookings_created s + 1,
              next_token_number := next_token_number s + 1\<rparr>))"

definition mark_next_served :: "ServiceQueue \<Rightarrow> Booking option \<times> ServiceQueue" where
  "mark_next_served s =
     (case waiting s of
        [] \<Rightarrow> (None, s)
      | served_booking # rest \<Rightarrow>
          (Some served_booking, s\<lparr>waiting := rest, served_count := served_count s + 1\<rparr>))"

subsection \<open>VirtualQueueManager\<close>

record VirtualQueueManager =
  services :: "(string \<times> ServiceQueue) list"
  booking_index :: "(string \<times> Booking) list"
  history :: "(string \<times> int) list list"

type_synonym service_config = "string \<times> string \<times> int \<times> int"

type_synonym result = "bool \<times> string \<times> Booking option"

definition record_history :: "VirtualQueueManager \<Rightarrow> VirtualQueueManager" where
  "record_history m =
     m\<lparr>history := history m @ [map (\<lambda>(sid, service). (sid, people_waiting service)) (services m)]\<rparr>"

text \<open>The loop of \<^verbatim>\<open>VirtualQueueManager.__init__\<close> that fills \<^verbatim>\<open>self.services\<close>.\<close>

fun build_services ::
  "(string \<times> ServiceQueue) list \<Rightarrow> service_config list \<Rightarrow> (string \<times> ServiceQueue) list" where
  "build_services d [] = d"
| "build_services d ((sid, dname, cap, avg) # cfgs) =
     build_services (AList.update sid (ServiceQueue_init sid dname cap avg) d) cfgs"

definition VirtualQueueManager_init :: "service_config list \<Rightarrow> VirtualQueueManager" where
  "VirtualQueueManager_init service_configs =
     record_history
       \<lparr>services = build_services [] service_configs, booking_index = [], history = []\<rparr>"

definition list_services :: "VirtualQueueManager \<Rightarrow> ServiceQueue list" where
  "list_services m = map snd (services m)"

definition quote :: "string \<Rightarrow> string" where
  "quote s = [CHR 0x27] @ s @ [CHR 0x27]"

definition book_slot ::
  "(string \<Rightarrow> string) \<Rightarrow> VirtualQueueManager \<Rightarrow> string \<Rightarrow> string
     \<Rightarrow> result \<times> VirtualQueueManager" where
  "book_slot upper m uname sid =
     (case map_of (services m) sid of
        None \<Rightarrow> ((False, ''Invalid service id: '' @ quote sid @ ''.'', None), m)
      | Some service \<Rightarrow>
          if strip uname = [] then ((False, ''User name cannot be empty.'', None), m)
          else
            let (booking, service') = create_booking upper service (strip uname);
                m1 = m\<lparr>services := AList.update sid service' (services m)\<rparr>
            in case booking of
                 None \<Rightarrow>
                   ((False,
                     ''Service '' @ quote (display_name service') @ '' is at full daily capacity.'',
                     None), m1)
               | Some b \<Rightarrow>
                   ((True, ''Booking confirmed.'', Some b),
                    record_history
                      (m1\<lparr>booking_index := AList.update (token b) b (booking_index m1)\<rparr>)))"

definition mark_served :: "VirtualQueueManager \<Rightarrow> string \<Rightarrow> result \<times> VirtualQueueManager" where
  "mark_served m sid =
     (case map_of (services m) sid of
        None \<Rightarrow> ((False, ''Invalid service id: '' @ quote sid @ ''.'', None), m)
      | Some service \<Rightarrow>
          let (served, service') = mark_next_served service;
              m1 = m\<lparr>services := AList.update sid service' (services m)\<rparr>
          in case served of
               None \<Rightarrow>
                 ((False,
                   ''Queue is empty for service '' @ quote (display_name service') @ ''.'',
                   None), m1)
             | Some b \<Rightarrow>
                 ((True,
                   ''Marked served: token '' @ token b @ '' ('' @ user_name b @ '').'',
                   Some b),
                  record_history m1))"

definition status_of :: "ServiceQueue \<Rightarrow> (string \<times> int) list" where
  "status_of service =
     [(''waiting'', people_waiting service),
      (''served'', served_count service),
      (''booked_total'', total_bookings_created service),
      (''capacity'', daily_capacity service),
      (''avg_service_minutes'', avg_service_minutes service),
      (''est_wait_new_user'', estimate_wait_minutes service)]"

definition queue_status ::
  "VirtualQueueManager \<Rightarrow> (string \<times> int) list list \<times> VirtualQueueManager" where
  "queue_status m = (map status_of (map snd (services m)), m)"

subsection \<open>Sequences of calls\<close>

datatype call = BookSlot string string | MarkServed string

fun step ::
  "(string \<Rightarrow> string) \<Rightarrow> VirtualQueueManager \<Rightarrow> call \<Rightarrow> result \<times> VirtualQueueManager" where
  "step upper m (BookSlot uname sid) = book_slot upper m uname sid"
| "step upper m (MarkServed sid) = mark_served m sid"

fun run :: "(string \<Rightarrow> string) \<Rightarrow> VirtualQueueManager \<Rightarrow> call list \<Rightarrow> VirtualQueueManager" where
  "run upper m [] = m"
| "run upper m (c # cs) = run upper (snd (step upper m c)) cs"

fun trace ::
  "(string \<Rightarrow> string) \<Rightarrow> VirtualQueueManager \<Rightarrow> call list \<Rightarrow> (call \<times> result) list" where
  "trace upper m [] = []"
| "trace upper m (c # cs) =
     (c, fst (step upper m c)) # trace upper (snd (step upper m c)) cs"

subsection \<open>What a trace shows\<close>

text \<open>
  The bookings admitted for a service, the bookings served from it, each in the order of
  the calls, and the number of successful calls.
\<close>

fun admitted_of :: "string \<Rightarrow> call \<times> result \<Rightarrow> Booking list" where
  "admitted_of sid (BookSlot uname sid', (ok, msg, Some b)) = (if ok \<and> sid' = sid then [b] else [])"
| "admitted_of sid _ = []"

fun served_of :: "string \<Rightarrow> call \<times> result \<Rightarrow> Booking list" where
  "served_of sid (MarkServed sid', (ok, msg, Some b)) = (if ok \<and> sid' = sid then [b] else [])"
| "served_of sid _ = []"

definition admitted :: "string \<Rightarrow> (call \<times> result) list \<Rightarrow> Booking list" where
  "admitted sid tr = concat (map (admitted_of sid) tr)"

definition served :: "string \<Rightarrow> (call \<times> result) list \<Rightarrow> Booking list" where
  "served sid tr = concat (map (served_of sid) tr)"

definition successes :: "(call \<times> result) list \<Rightarrow> nat" where
  "successes tr = length (filter (\<lambda>(c, ok, msg, b). ok) tr)"

text \<open>Every booking that a successful \<open>book_slot\<close> call of the trace returned, in order.\<close>

fun created_of :: "call \<times> result \<Rightarrow> Booking list" where
  "created_of (BookSlot uname sid, (ok, msg, Some b)) = (if ok then [b] else [])"
| "created_of _ = []"

definition created :: "(call \<times> result) list \<Rightarrow> Booking list" where
  "created tr = concat (map created_of tr)"

text \<open>
  Reading a token's number back: the decimal digits, and the number a string of digits
  denotes (most significant digit first, leading zeros allowed).
\<close>

definition is_digit :: "char \<Rightarrow> bool" where
  "is_digit c = (48 \<le> (of_char c :: nat) \<and> (of_char c :: nat) \<le> 57)"

definition int_of_digits :: "string \<Rightarrow> nat" where
  "int_of_digits ds = foldl (\<lambda>a c. 10 * a + ((of_char c :: nat) - 48)) 0 ds"

text \<open>
  The invariant that keeps the bookings \<open>B\<close> in the booking index: each service is stored
  under its own id and its next number is positive, the ids of the services stay distinct
  in upper case, and every booking of \<open>B\<close> is found under its token, which was made
  from the id of a service and a number that this service has already passed.
\<close>

definition index_inv :: "(string \<Rightarrow> string) \<Rightarrow> VirtualQueueManager \<Rightarrow> Booking set \<Rightarrow> bool" where
  "index_inv upper m B \<longleftrightarrow>
     (\<forall>sid s. map_of (services m) sid = Some s \<longrightarrow>
        ServiceQueue.service_id s = sid \<and> 1 \<le> next_token_number s)
     \<and> inj_on upper (dom (map_of (services m)))
     \<and> (\<forall>b\<in>B. map_of (booking_index m) (token b) = Some b
           \<and> (\<exists>sid s j. map_of (services m) sid = Some s \<and> 1 \<le> j \<and> j < next_token_number s
                  \<and> token b = upper sid @ ''-'' @ format_03d j))"

text \<open>The configuration and the calls of \<^verbatim>\<open>run_demo\<close>.\<close>

definition demo_configs :: "service_config list" where
  "demo_configs = [(''cashier'', ''Cashier'', 3, 5), (''doctor'', ''Doctor Consultation'', 2, 10)]"

definition demo_steps :: "call list" where
  "demo_steps =
     [BookSlot ''Asha'' ''doctor'', BookSlot ''Ben'' ''doctor'', BookSlot ''Cara'' ''doctor'',
      MarkServed ''doctor'', MarkServed ''doctor'', MarkServed ''doctor'',
      BookSlot [] ''cashier'', BookSlot ''Deep'' ''unknown'']"

text \<open>
  The examples need a value for the argument \<open>upper\<close>. Their service ids consist of
  characters below 128, and on such a string \<^verbatim>\<open>str.upper\<close> moves the letters a to z to
  A to Z and leaves every other character: \<open>ascii_upper\<close> does that. It stands for
  \<^verbatim>\<open>str.upper\<close> on those strings only, and is used in the examples only, never in a
  general statement.
\<close>

definition ascii_upper_char :: "char \<Rightarrow> char" where
  "ascii_upper_char c =
     (if 97 \<le> (of_char c :: nat) \<and> (of_char c :: nat) \<le> 122
      then char_of ((of_char c :: nat) - 32) else c)"

definition ascii_upper :: "string \<Rightarrow> string" where
  "ascii_upper s = map ascii_upper_char s"

section \<open>The outcomes of one call\<close>

lemma create_booking_full: "is_full s \<Longrightarrow> create_booking upper s u = (None, s)"
  by (simp add: create_booking_def)

lemma create_booking_ok:
  "\<not> is_full s \<Longrightarrow>
   create_booking upper s u =
     (Some \<lparr>token = upper (ServiceQueue.service_id s) @ ''-'' @ format_03d (next_token_number s),
            user_name = u, Booking.service_id = ServiceQueue.service_id s,
            estimated_wait_minutes_at_booking = int (length (waiting s)) * avg_service_minutes s\<rparr>,
      s\<lparr>waiting := waiting s @
            [\<lparr>token = upper (ServiceQueue.service_id s) @ ''-'' @ format_03d (next_token_number s),
              user_name = u, Booking.service_id = ServiceQueue.service_id s,
              estimated_wait_minutes_at_booking = int (length (waiting s)) * avg_service_minutes s\<rparr>],
        total_bookings_created := total_bookings_created s + 1,
        next_token_number := next_token_number s + 1\<rparr>)"
  by (simp add: create_booking_def Let_def estimate_wait_minutes_def)

lemma book_slot_cases [consumes 0, case_names unknown empty_name full ok]:
  obtains
    (unknown) "map_of (services m) sid = None"
      "book_slot upper m u sid = ((False, ''Invalid service id: '' @ quote sid @ ''.'', None), m)"
  | (empty_name) s where "map_of (services m) sid = Some s" "strip u = []"
      "book_slot upper m u sid = ((False, ''User name cannot be empty.'', None), m)"
  | (full) s where "map_of (services m) sid = Some s" "strip u \<noteq> []" "is_full s"
      "book_slot upper m u sid =
         ((False, ''Service '' @ quote (display_name s) @ '' is at full daily capacity.'', None), m)"
  | (ok) s b s' where "map_of (services m) sid = Some s" "strip u \<noteq> []" "\<not> is_full s"
      "create_booking upper s (strip u) = (Some b, s')"
      "book_slot upper m u sid =
         ((True, ''Booking confirmed.'', Some b),
          record_history
            (m\<lparr>services := AList.update sid s' (services m),
               booking_index := AList.update (token b) b (booking_index m)\<rparr>))"
proof (cases "map_of (services m) sid")
  case None
  then show ?thesis using unknown by (simp add: book_slot_def)
next
  case (Some s)
  show ?thesis
  proof (cases "strip u = []")
    case True
    with Some show ?thesis using empty_name by (simp add: book_slot_def)
  next
    case False
    show ?thesis
    proof (cases "is_full s")
      case True
      have "AList.update sid s (services m) = services m"
        using Some by (rule AList.update_triv)
      with Some False True show ?thesis
        using full by (simp add: book_slot_def create_booking_full)
    next
      case nf: False
      obtain b s' where cb: "create_booking upper s (strip u) = (Some b, s')"
        using create_booking_ok [OF nf] by blast
      with Some False nf show ?thesis
        using ok by (simp add: book_slot_def)
    qed
  qed
qed

lemma mark_served_cases [consumes 0, case_names unknown empty_queue ok]:
  obtains
    (unknown) "map_of (services m) sid = None"
      "mark_served m sid = ((False, ''Invalid service id: '' @ quote sid @ ''.'', None), m)"
  | (empty_queue) s where "map_of (services m) sid = Some s" "waiting s = []"
      "mark_served m sid =
         ((False, ''Queue is empty for service '' @ quote (display_name s) @ ''.'', None), m)"
  | (ok) s b rest where "map_of (services m) sid = Some s" "waiting s = b # rest"
      "mark_served m sid =
         ((True, ''Marked served: token '' @ token b @ '' ('' @ user_name b @ '').'', Some b),
          record_history
            (m\<lparr>services :=
                 AList.update sid (s\<lparr>waiting := rest, served_count := served_count s + 1\<rparr>)
                   (services m)\<rparr>))"
proof (cases "map_of (services m) sid")
  case None
  then show ?thesis using unknown by (simp add: mark_served_def)
next
  case (Some s)
  show ?thesis
  proof (cases "waiting s")
    case Nil
    have "AList.update sid s (services m) = services m"
      using Some by (rule AList.update_triv)
    with Some Nil show ?thesis
      using empty_queue by (simp add: mark_served_def mark_next_served_def)
  next
    case (Cons b rest)
    with Some show ?thesis
      using ok by (simp add: mark_served_def mark_next_served_def)
  qed
qed

section \<open>Lookups after a call, and properties kept by every call\<close>

lemma strip_empty_iff: "strip u = [] \<longleftrightarrow> (\<forall>ch\<in>set u. is_space ch)"
proof
  assume "strip u = []"
  then have all: "\<forall>ch\<in>set (dropWhile is_space u). is_space ch"
    by (simp add: strip_def dropWhile_eq_Nil_conv)
  have "dropWhile is_space u = []"
  proof (rule ccontr)
    assume ne: "dropWhile is_space u \<noteq> []"
    then have "\<not> is_space (hd (dropWhile is_space u))" by (rule hd_dropWhile)
    moreover have "hd (dropWhile is_space u) \<in> set (dropWhile is_space u)"
      using ne by simp
    ultimately show False using all by blast
  qed
  then show "\<forall>ch\<in>set u. is_space ch" by (simp add: dropWhile_eq_Nil_conv)
next
  assume "\<forall>ch\<in>set u. is_space ch"
  then have "dropWhile is_space u = []" by (simp add: dropWhile_eq_Nil_conv)
  then show "strip u = []" unfolding strip_def by (simp del: dropWhile_eq_Nil_conv)
qed

lemma services_record_history [simp]: "services (record_history m) = services m"
  by (simp add: record_history_def)

lemma booking_index_record_history [simp]: "booking_index (record_history m) = booking_index m"
  by (simp add: record_history_def)

lemma length_history_record_history [simp]:
  "length (history (record_history m)) = Suc (length (history m))"
  by (simp add: record_history_def)

lemma book_slot_services:
  "map_of (services (snd (book_slot upper m u sid))) k =
     (if k = sid \<and> strip u \<noteq> []
      then map_option (\<lambda>s. snd (create_booking upper s (strip u))) (map_of (services m) sid)
      else map_of (services m) k)"
proof (cases rule: book_slot_cases [where upper = upper and m = m and u = u and sid = sid])
  case unknown then show ?thesis by simp
next
  case (empty_name s) then show ?thesis by simp
next
  case (full s) then show ?thesis by (simp add: create_booking_full)
next
  case (ok s b s') then show ?thesis by (simp add: update_conv')
qed

lemma mark_served_services:
  "map_of (services (snd (mark_served m sid))) k =
     (if k = sid
      then map_option (\<lambda>s. snd (mark_next_served s)) (map_of (services m) sid)
      else map_of (services m) k)"
proof (cases rule: mark_served_cases [where m = m and sid = sid])
  case unknown then show ?thesis by simp
next
  case (empty_queue s) then show ?thesis by (simp add: mark_next_served_def)
next
  case (ok s b rest) then show ?thesis by (simp add: update_conv' mark_next_served_def)
qed

text \<open>A property of single services that both mutators keep is kept by every call.\<close>

lemma step_preserves:
  assumes cb: "\<And>k s u. P k s \<Longrightarrow> P k (snd (create_booking upper s u))"
    and ms: "\<And>k s. P k s \<Longrightarrow> P k (snd (mark_next_served s))"
    and m: "\<And>k s. map_of (services m) k = Some s \<Longrightarrow> P k s"
    and m': "map_of (services (snd (step upper m c))) k = Some s"
  shows "P k s"
proof (cases c)
  case (BookSlot u sid)
  with m' show ?thesis
    by (auto simp: book_slot_services split: if_splits intro: cb m)
next
  case (MarkServed sid)
  with m' show ?thesis
    by (auto simp: mark_served_services split: if_splits intro: ms m)
qed

lemma run_preserves:
  assumes cb: "\<And>k s u. P k s \<Longrightarrow> P k (snd (create_booking upper s u))"
    and ms: "\<And>k s. P k s \<Longrightarrow> P k (snd (mark_next_served s))"
  shows "(\<And>k s. map_of (services m) k = Some s \<Longrightarrow> P k s) \<Longrightarrow>
         map_of (services (run upper m cs)) k = Some s \<Longrightarrow> P k s"
proof (induction cs arbitrary: m)
  case Nil
  then show ?case by simp
next
  case (Cons c cs)
  show ?case
  proof (rule Cons.IH)
    show "map_of (services (run upper (snd (step upper m c)) cs)) k = Some s"
      using Cons.prems(2) by simp
  next
    fix k' s'
    assume "map_of (services (snd (step upper m c))) k' = Some s'"
    then show "P k' s'"
      using step_preserves [where P = P and upper = upper and m = m and c = c and k = k' and s = s']
        cb ms Cons.prems(1)
      by blast
  qed
qed

lemma build_services_lookup:
  "map_of (build_services d cfgs) k = Some s \<Longrightarrow>
   map_of d k = Some s \<or>
   (\<exists>dname cap avg. (k, dname, cap, avg) \<in> set cfgs \<and> s = ServiceQueue_init k dname cap avg)"
proof (induction d cfgs rule: build_services.induct)
  case (1 d)
  then show ?case by simp
next
  case (2 d sid dname cap avg cfgs)
  from "2.prems"
  have "map_of (build_services (AList.update sid (ServiceQueue_init sid dname cap avg) d) cfgs) k
          = Some s"
    by simp
  from "2.IH" [OF this] show ?case
    by (auto simp: update_conv' split: if_splits)
qed

lemma init_services_lookup:
  "map_of (services (VirtualQueueManager_init cfgs)) k = Some s \<Longrightarrow>
   \<exists>dname cap avg. (k, dname, cap, avg) \<in> set cfgs \<and> s = ServiceQueue_init k dname cap avg"
  using build_services_lookup [of "[]" cfgs k s]
  by (simp add: VirtualQueueManager_init_def)

section \<open>The demo run\<close>

text \<open>
  The run of \<^verbatim>\<open>run_demo\<close>: two bookings for the doctor, a third refused at capacity,
  two bookings served in the order of admission, a serve on the empty line refused, then
  an empty name and an unknown service refused.
\<close>

lemma ascii_upper_examples:
  "ascii_upper ''doctor'' = ''DOCTOR''" "ascii_upper ''cashier'' = ''CASHIER''"
  "ascii_upper ''a'' = ''A''" "ascii_upper ''A'' = ''A''" "ascii_upper ''d'' = ''D''"
  by code_simp+

lemma demo_outcomes:
  "map (\<lambda>(c, ok, msg, b). (ok, map_option token b))
     (trace ascii_upper (VirtualQueueManager_init demo_configs) demo_steps) =
     [(True, Some ''DOCTOR-001''), (True, Some ''DOCTOR-002''), (False, None),
      (True, Some ''DOCTOR-001''), (True, Some ''DOCTOR-002''), (False, None),
      (False, None), (False, None)]"
  by code_simp

lemma demo_messages:
  "map (\<lambda>(c, ok, msg, b). msg) (trace ascii_upper (VirtualQueueManager_init demo_configs) demo_steps) =
     [''Booking confirmed.'', ''Booking confirmed.'',
      ''Service '' @ quote ''Doctor Consultation'' @ '' is at full daily capacity.'',
      ''Marked served: token DOCTOR-001 (Asha).'', ''Marked served: token DOCTOR-002 (Ben).'',
      ''Queue is empty for service '' @ quote ''Doctor Consultation'' @ ''.'',
      ''User name cannot be empty.'', ''Invalid service id: '' @ quote ''unknown'' @ ''.'']"
  by code_simp

section \<open>Counters, history and failed calls\<close>

lemma trace_length [simp]: "length (trace upper m cs) = length cs"
  by (induction cs arbitrary: m) simp_all

lemma create_booking_balance:
  "total_bookings_created s = served_count s + people_waiting s \<Longrightarrow>
   total_bookings_created (snd (create_booking upper s u)) =
     served_count (snd (create_booking upper s u)) + people_waiting (snd (create_booking upper s u))"
  by (cases "is_full s") (simp_all add: create_booking_full create_booking_ok people_waiting_def)

lemma mark_next_served_balance:
  "total_bookings_created s = served_count s + people_waiting s \<Longrightarrow>
   total_bookings_created (snd (mark_next_served s)) =
     served_count (snd (mark_next_served s)) + people_waiting (snd (mark_next_served s))"
  by (cases "waiting s") (simp_all add: mark_next_served_def people_waiting_def)

lemma ServiceQueue_init_fields [simp]:
  "ServiceQueue.service_id (ServiceQueue_init sid dname cap avg) = sid"
  "display_name (ServiceQueue_init sid dname cap avg) = dname"
  "daily_capacity (ServiceQueue_init sid dname cap avg) = cap"
  "avg_service_minutes (ServiceQueue_init sid dname cap avg) = avg"
  "waiting (ServiceQueue_init sid dname cap avg) = []"
  "total_bookings_created (ServiceQueue_init sid dname cap avg) = 0"
  "next_token_number (ServiceQueue_init sid dname cap avg) = 1"
  "served_count (ServiceQueue_init sid dname cap avg) = 0"
  by (simp_all add: ServiceQueue_init_def)

text \<open>
  C1. In every state reached from construction by \<open>book_slot\<close> and \<open>mark_served\<close> calls,
  every configured service has
  \<open>total_bookings_created = served_count + people_waiting\<close>, where \<open>people_waiting\<close>
  is the length of the waiting sequence.
\<close>

theorem counters_balance:
  assumes "map_of (services (run upper (VirtualQueueManager_init cfgs) cs)) sid = Some s"
  shows "total_bookings_created s = served_count s + people_waiting s
         \<and> people_waiting s = int (length (waiting s))"
proof -
  have "total_bookings_created s = served_count s + people_waiting s"
  proof (rule run_preserves
      [where upper = upper and P = "\<lambda>k s. total_bookings_created s = served_count s + people_waiting s"
         and m = "VirtualQueueManager_init cfgs" and cs = cs and k = sid])
    show "map_of (services (run upper (VirtualQueueManager_init cfgs) cs)) sid = Some s"
      by (rule assms)
  next
    fix k s'
    assume "map_of (services (VirtualQueueManager_init cfgs)) k = Some s'"
    then show "total_bookings_created s' = served_count s' + people_waiting s'"
      by (auto dest!: init_services_lookup simp: people_waiting_def)
  qed (fact create_booking_balance mark_next_served_balance)+
  then show ?thesis by (simp add: people_waiting_def)
qed

theorem counters_balance_witness:
  "let s = \<lparr>service_id = ''doctor'', display_name = ''Doctor Consultation'', daily_capacity = 2,
             avg_service_minutes = 10,
             waiting = [\<lparr>token = ''DOCTOR-002'', user_name = ''Ben'',
                         Booking.service_id = ''doctor'',
                         estimated_wait_minutes_at_booking = 10\<rparr>],
             total_bookings_created = 2, next_token_number = 3, served_count = 1\<rparr>
   in map_of (services (run ascii_upper (VirtualQueueManager_init demo_configs) (take 4 demo_steps)))
        ''doctor'' = Some s
      \<and> total_bookings_created s = served_count s + people_waiting s
      \<and> people_waiting s = int (length (waiting s))"
proof -
  have h: "map_of (services (run ascii_upper (VirtualQueueManager_init demo_configs) (take 4 demo_steps)))
             ''doctor'' =
     Some \<lparr>service_id = ''doctor'', display_name = ''Doctor Consultation'', daily_capacity = 2,
            avg_service_minutes = 10,
            waiting = [\<lparr>token = ''DOCTOR-002'', user_name = ''Ben'',
                        Booking.service_id = ''doctor'',
                        estimated_wait_minutes_at_booking = 10\<rparr>],
            total_bookings_created = 2, next_token_number = 3, served_count = 1\<rparr>"
    by code_simp
  from counters_balance [OF h] h show ?thesis unfolding Let_def by blast
qed

lemma step_history_length:
  "length (history (snd (step upper m c))) = length (history m) + (if fst (fst (step upper m c)) then 1 else 0)"
proof (cases c)
  case (BookSlot u sid)
  show ?thesis
    by (cases rule: book_slot_cases [where upper = upper and m = m and u = u and sid = sid])
       (simp_all add: BookSlot)
next
  case (MarkServed sid)
  show ?thesis
    by (cases rule: mark_served_cases [where m = m and sid = sid])
       (simp_all add: MarkServed)
qed

lemma successes_Cons:
  "successes ((c, r) # tr) = (if fst r then 1 else 0) + successes tr"
  by (cases r) (simp add: successes_def)

lemma run_history_length:
  "length (history (run upper m cs)) = length (history m) + successes (trace upper m cs)"
proof (induction cs arbitrary: m)
  case Nil
  show ?case by (simp add: successes_def)
next
  case (Cons c cs)
  show ?case
    by (simp add: Cons.IH step_history_length successes_Cons)
qed

lemma init_history_length: "length (history (VirtualQueueManager_init cfgs)) = 1"
  by (simp add: VirtualQueueManager_init_def)

text \<open>
  C6. The history holds exactly one snapshot after construction; a call appends exactly
  one snapshot when it succeeds and none when it fails; so after any sequence of calls the
  length of the history is one more than the number of successful calls.
\<close>

theorem history_length:
  "length (history (VirtualQueueManager_init cfgs)) = 1
   \<and> length (history (snd (step upper m c))) =
       length (history m) + (if fst (fst (step upper m c)) then 1 else 0)
   \<and> length (history (run upper (VirtualQueueManager_init cfgs) cs)) =
       1 + successes (trace upper (VirtualQueueManager_init cfgs) cs)"
  by (simp add: init_history_length step_history_length run_history_length)

lemma whitespace_only_fails:
  assumes "map_of (services m) sid = Some s" "\<forall>ch\<in>set u. is_space ch"
  shows "book_slot upper m u sid = ((False, ''User name cannot be empty.'', None), m)"
  using assms by (simp add: book_slot_def strip_empty_iff)

lemma full_fails:
  assumes "map_of (services m) sid = Some s" "strip u \<noteq> []" "is_full s"
  shows "book_slot upper m u sid =
           ((False, ''Service '' @ quote (display_name s) @ '' is at full daily capacity.'', None),
            m)"
  by (cases rule: book_slot_cases [where upper = upper and m = m and u = u and sid = sid]) (use assms in simp_all)

lemma empty_queue_fails:
  assumes "map_of (services m) sid = Some s" "waiting s = []"
  shows "mark_served m sid =
           ((False, ''Queue is empty for service '' @ quote (display_name s) @ ''.'', None), m)"
  by (cases rule: mark_served_cases [where m = m and sid = sid]) (use assms in simp_all)

lemma unknown_fails:
  assumes "map_of (services m) sid = None"
  shows "book_slot upper m u sid = ((False, ''Invalid service id: '' @ quote sid @ ''.'', None), m)"
    and "mark_served m sid = ((False, ''Invalid service id: '' @ quote sid @ ''.'', None), m)"
  using assms by (simp_all add: book_slot_def mark_served_def)

lemma failed_step_unchanged:
  assumes "\<not> fst (fst (step upper m c))"
  shows "snd (step upper m c) = m \<and> snd (snd (fst (step upper m c))) = None \<and> fst (snd (fst (step upper m c))) \<noteq> []"
proof (cases c)
  case (BookSlot u sid)
  show ?thesis
    by (cases rule: book_slot_cases [where upper = upper and m = m and u = u and sid = sid])
       (use assms BookSlot in simp_all)
next
  case (MarkServed sid)
  show ?thesis
    by (cases rule: mark_served_cases [where m = m and sid = sid])
       (use assms MarkServed in simp_all)
qed

text \<open>
  C7. A call fails in four situations, and then it returns \<open>False\<close>, the message of that
  situation and no booking, and the manager it returns is the manager it was given: an
  unknown service id (both calls), a user name that is empty or consists of white space
  only, a service at full daily capacity, and an empty waiting line. Whatever the reason,
  a call that returns \<open>False\<close> returns the manager unchanged (services with their counters
  and waiting lines, booking index and history), no booking, and a non-empty message.
\<close>

theorem failed_call_atomic:
  "(map_of (services m) sid = None \<longrightarrow>
      book_slot upper m u sid = ((False, ''Invalid service id: '' @ quote sid @ ''.'', None), m)
      \<and> mark_served m sid = ((False, ''Invalid service id: '' @ quote sid @ ''.'', None), m))
   \<and> (map_of (services m) sid = Some s \<and> (\<forall>ch\<in>set u. is_space ch) \<longrightarrow>
      book_slot upper m u sid = ((False, ''User name cannot be empty.'', None), m))
   \<and> (map_of (services m) sid = Some s \<and> strip u \<noteq> [] \<and> is_full s \<longrightarrow>
      book_slot upper m u sid =
        ((False, ''Service '' @ quote (display_name s) @ '' is at full daily capacity.'', None), m))
   \<and> (map_of (services m) sid = Some s \<and> waiting s = [] \<longrightarrow>
      mark_served m sid =
        ((False, ''Queue is empty for service '' @ quote (display_name s) @ ''.'', None), m))
   \<and> (\<not> fst (fst (step upper m c)) \<longrightarrow>
      snd (step upper m c) = m \<and> snd (snd (fst (step upper m c))) = None
      \<and> fst (snd (fst (step upper m c))) \<noteq> [])"
  using unknown_fails(1) [where upper = upper and m = m and sid = sid and u = u]
    unknown_fails(2) [of m sid]
    whitespace_only_fails [where upper = upper and m = m and sid = sid and s = s and u = u]
    full_fails [where upper = upper and m = m and sid = sid and s = s and u = u]
    empty_queue_fails [of m sid s]
    failed_step_unchanged [where upper = upper and m = m and c = c]
  by blast

theorem failed_call_atomic_witness:
  "let m = run ascii_upper (VirtualQueueManager_init demo_configs) (take 5 demo_steps);
       s = \<lparr>service_id = ''doctor'', display_name = ''Doctor Consultation'', daily_capacity = 2,
             avg_service_minutes = 10, waiting = [], total_bookings_created = 2,
             next_token_number = 3, served_count = 2\<rparr>
   in map_of (services m) ''unknown'' = None
      \<and> book_slot ascii_upper m ''Deep'' ''unknown'' =
          ((False, ''Invalid service id: '' @ quote ''unknown'' @ ''.'', None), m)
      \<and> mark_served m ''unknown'' =
          ((False, ''Invalid service id: '' @ quote ''unknown'' @ ''.'', None), m)
      \<and> map_of (services m) ''doctor'' = Some s
      \<and> book_slot ascii_upper m ''  '' ''doctor'' = ((False, ''User name cannot be empty.'', None), m)
      \<and> strip ''Cara'' \<noteq> [] \<and> is_full s
      \<and> book_slot ascii_upper m ''Cara'' ''doctor'' =
          ((False, ''Service '' @ quote (display_name s) @ '' is at full daily capacity.'', None),
           m)
      \<and> waiting s = []
      \<and> mark_served m ''doctor'' =
          ((False, ''Queue is empty for service '' @ quote (display_name s) @ ''.'', None), m)
      \<and> snd (step ascii_upper m (MarkServed ''doctor'')) = m"
proof -
  let ?m = "run ascii_upper (VirtualQueueManager_init demo_configs) (take 5 demo_steps)"
  let ?s = "\<lparr>service_id = ''doctor'', display_name = ''Doctor Consultation'', daily_capacity = 2,
             avg_service_minutes = 10, waiting = [], total_bookings_created = 2,
             next_token_number = 3, served_count = 2\<rparr>"
  have h1: "map_of (services ?m) ''unknown'' = None" by code_simp
  have h2: "map_of (services ?m) ''doctor'' = Some ?s" by code_simp
  have h3: "\<forall>ch\<in>set ''  ''. is_space ch" by code_simp
  have h4: "strip ''Cara'' \<noteq> []" by code_simp
  have h5: "is_full ?s" by code_simp
  have h6: "waiting ?s = []" by simp
  have h7: "\<not> fst (fst (step ascii_upper ?m (MarkServed ''doctor'')))" by code_simp
  from failed_call_atomic [where upper = ascii_upper and m = ?m and sid = "''unknown''"
        and u = "''Deep''" and s = ?s and c = "MarkServed ''doctor''"]
    failed_call_atomic [where upper = ascii_upper and m = ?m and sid = "''doctor''"
        and u = "''  ''" and s = ?s and c = "MarkServed ''doctor''"]
    failed_call_atomic [where upper = ascii_upper and m = ?m and sid = "''doctor''"
        and u = "''Cara''" and s = ?s and c = "MarkServed ''doctor''"]
    h1 h2 h3 h4 h5 h6 h7
  show ?thesis unfolding Let_def by blast
qed

section \<open>The capacity gate\<close>

lemma create_booking_stays_full:
  "is_full s \<and> display_name s = dn \<Longrightarrow>
   is_full (snd (create_booking upper s u)) \<and> display_name (snd (create_booking upper s u)) = dn"
  by (simp add: create_booking_full)

lemma mark_next_served_stays_full:
  "is_full s \<and> display_name s = dn \<Longrightarrow>
   is_full (snd (mark_next_served s)) \<and> display_name (snd (mark_next_served s)) = dn"
  by (cases "waiting s") (simp_all add: mark_next_served_def is_full_def)

lemma step_lookup_None:
  "map_of (services (snd (step upper m c))) k = None \<longleftrightarrow> map_of (services m) k = None"
  by (cases c) (auto simp: book_slot_services mark_served_services)

lemma run_lookup_None:
  "map_of (services (run upper m cs)) k = None \<longleftrightarrow> map_of (services m) k = None"
  by (induction cs arbitrary: m) (simp_all add: step_lookup_None)

lemma run_stays_full:
  assumes "map_of (services m) sid = Some s" "is_full s"
  obtains s' where "map_of (services (run upper m cs)) sid = Some s'" "is_full s'"
    "display_name s' = display_name s"
proof -
  from assms(1) have "map_of (services (run upper m cs)) sid \<noteq> None"
    by (simp add: run_lookup_None)
  then obtain s' where s': "map_of (services (run upper m cs)) sid = Some s'" by blast
  have "sid = sid \<longrightarrow> is_full s' \<and> display_name s' = display_name s"
  proof (rule run_preserves
      [where upper = upper and P = "\<lambda>k x. k = sid \<longrightarrow> is_full x \<and> display_name x = display_name s"
         and m = m and cs = cs and k = sid and s = s'])
    show "map_of (services (run upper m cs)) sid = Some s'" by (rule s')
  next
    fix k x
    assume "map_of (services m) k = Some x"
    with assms show "k = sid \<longrightarrow> is_full x \<and> display_name x = display_name s" by auto
  next
    fix k x u
    assume "k = sid \<longrightarrow> is_full x \<and> display_name x = display_name s"
    then show "k = sid \<longrightarrow> is_full (snd (create_booking upper x u))
                 \<and> display_name (snd (create_booking upper x u)) = display_name s"
      using create_booking_stays_full by blast
  next
    fix k x
    assume "k = sid \<longrightarrow> is_full x \<and> display_name x = display_name s"
    then show "k = sid \<longrightarrow> is_full (snd (mark_next_served x))
                 \<and> display_name (snd (mark_next_served x)) = display_name s"
      using mark_next_served_stays_full by blast
  qed
  with s' that show thesis by blast
qed

lemma full_book_slot_fails:
  assumes "map_of (services m) sid = Some s" "is_full s"
  shows "\<not> fst (fst (book_slot upper m u sid)) \<and> snd (snd (fst (book_slot upper m u sid))) = None
         \<and> snd (book_slot upper m u sid) = m
         \<and> (strip u \<noteq> [] \<longrightarrow>
              fst (snd (fst (book_slot upper m u sid))) =
                ''Service '' @ quote (display_name s) @ '' is at full daily capacity.'')"
  by (cases rule: book_slot_cases [where upper = upper and m = m and u = u and sid = sid]) (use assms in simp_all)

lemma once_full_always_refused:
  assumes "map_of (services m) sid = Some s" "daily_capacity s \<le> total_bookings_created s"
  shows "\<not> fst (fst (book_slot upper (run upper m cs) u sid))
         \<and> snd (snd (fst (book_slot upper (run upper m cs) u sid))) = None
         \<and> snd (book_slot upper (run upper m cs) u sid) = run upper m cs
         \<and> (strip u \<noteq> [] \<longrightarrow>
              fst (snd (fst (book_slot upper (run upper m cs) u sid))) =
                ''Service '' @ quote (display_name s) @ '' is at full daily capacity.'')"
proof -
  from assms(2) have "is_full s" by (simp add: is_full_def)
  with assms(1) obtain s' where "map_of (services (run upper m cs)) sid = Some s'" "is_full s'"
    "display_name s' = display_name s"
    by (rule run_stays_full)
  then show ?thesis
    using full_book_slot_fails [where upper = upper and m = "run upper m cs" and sid = sid
        and s = s' and u = u]
    by simp
qed

lemma create_booking_within_capacity:
  "total_bookings_created s \<le> daily_capacity s \<Longrightarrow>
   total_bookings_created (snd (create_booking upper s u)) \<le> daily_capacity (snd (create_booking upper s u))"
  by (cases "is_full s") (simp_all add: create_booking_full create_booking_ok is_full_def)

lemma mark_next_served_within_capacity:
  "total_bookings_created s \<le> daily_capacity s \<Longrightarrow>
   total_bookings_created (snd (mark_next_served s)) \<le> daily_capacity (snd (mark_next_served s))"
  by (cases "waiting s") (simp_all add: mark_next_served_def)

lemma within_capacity:
  assumes "\<forall>(k, dname, cap, avg)\<in>set cfgs. 0 \<le> cap"
    and "map_of (services (run upper (VirtualQueueManager_init cfgs) cs)) sid = Some s"
  shows "total_bookings_created s \<le> daily_capacity s"
proof (rule run_preserves
    [where upper = upper and P = "\<lambda>k x. total_bookings_created x \<le> daily_capacity x"
       and m = "VirtualQueueManager_init cfgs" and cs = cs and k = sid])
  show "map_of (services (run upper (VirtualQueueManager_init cfgs) cs)) sid = Some s"
    by (rule assms(2))
next
  fix k x
  assume "map_of (services (VirtualQueueManager_init cfgs)) k = Some x"
  then obtain dname cap avg where "(k, dname, cap, avg) \<in> set cfgs"
    "x = ServiceQueue_init k dname cap avg"
    by (blast dest: init_services_lookup)
  with assms(1) show "total_bookings_created x \<le> daily_capacity x" by auto
qed (fact create_booking_within_capacity mark_next_served_within_capacity)+

text \<open>
  C2. \<open>is_full\<close> is true exactly when \<open>total_bookings_created \<ge> daily_capacity\<close>. Once a
  service has reached its capacity, every later \<open>book_slot\<close> call for it, after any
  further calls (also ones that empty the waiting line), returns \<open>False\<close> and no booking
  and leaves the manager as it was (no counter, no history entry), with the capacity
  message when the name is not blank. Hence, for a manager configured with capacities
  that are not negative (the specification takes them positive), every reachable state has
  \<open>total_bookings_created \<le> daily_capacity\<close> for every service.
\<close>

theorem capacity_gate:
  "(is_full s \<longleftrightarrow> total_bookings_created s \<ge> daily_capacity s)
   \<and> (map_of (services m) sid = Some s \<and> daily_capacity s \<le> total_bookings_created s \<longrightarrow>
        \<not> fst (fst (book_slot upper (run upper m cs) u sid))
        \<and> snd (snd (fst (book_slot upper (run upper m cs) u sid))) = None
        \<and> snd (book_slot upper (run upper m cs) u sid) = run upper m cs
        \<and> (strip u \<noteq> [] \<longrightarrow>
             fst (snd (fst (book_slot upper (run upper m cs) u sid))) =
               ''Service '' @ quote (display_name s) @ '' is at full daily capacity.''))
   \<and> ((\<forall>(k, dname, cap, avg)\<in>set cfgs. 0 \<le> cap)
        \<and> map_of (services (run upper (VirtualQueueManager_init cfgs) cs')) sid' = Some s' \<longrightarrow>
        total_bookings_created s' \<le> daily_capacity s')"
  using once_full_always_refused [where upper = upper and m = m and sid = sid and s = s
      and cs = cs and u = u]
    within_capacity [where upper = upper and cfgs = cfgs and cs = cs' and sid = sid' and s = s']
  by (simp add: is_full_def)

theorem capacity_gate_witness:
  "let m = run ascii_upper (VirtualQueueManager_init demo_configs) (take 2 demo_steps);
       s = \<lparr>service_id = ''doctor'', display_name = ''Doctor Consultation'', daily_capacity = 2,
             avg_service_minutes = 10,
             waiting = [\<lparr>token = ''DOCTOR-001'', user_name = ''Asha'',
                         Booking.service_id = ''doctor'',
                         estimated_wait_minutes_at_booking = 0\<rparr>,
                        \<lparr>token = ''DOCTOR-002'', user_name = ''Ben'',
                         Booking.service_id = ''doctor'',
                         estimated_wait_minutes_at_booking = 10\<rparr>],
             total_bookings_created = 2, next_token_number = 3, served_count = 0\<rparr>;
       cs = [MarkServed ''doctor'', MarkServed ''doctor''];
       s' = \<lparr>service_id = ''doctor'', display_name = ''Doctor Consultation'', daily_capacity = 2,
              avg_service_minutes = 10, waiting = [], total_bookings_created = 2,
              next_token_number = 3, served_count = 2\<rparr>
   in map_of (services m) ''doctor'' = Some s
      \<and> daily_capacity s \<le> total_bookings_created s
      \<and> map_of (services (run ascii_upper m cs)) ''doctor'' = Some s'
      \<and> people_waiting s' = 0
      \<and> \<not> fst (fst (book_slot ascii_upper (run ascii_upper m cs) ''Cara'' ''doctor''))
      \<and> snd (book_slot ascii_upper (run ascii_upper m cs) ''Cara'' ''doctor'') = run ascii_upper m cs
      \<and> fst (snd (fst (book_slot ascii_upper (run ascii_upper m cs) ''Cara'' ''doctor''))) =
          ''Service '' @ quote ''Doctor Consultation'' @ '' is at full daily capacity.''
      \<and> map_of (services (run ascii_upper (VirtualQueueManager_init demo_configs) demo_steps)) ''doctor''
          = Some s'
      \<and> total_bookings_created s' \<le> daily_capacity s'"
proof -
  let ?m = "run ascii_upper (VirtualQueueManager_init demo_configs) (take 2 demo_steps)"
  let ?s = "\<lparr>service_id = ''doctor'', display_name = ''Doctor Consultation'', daily_capacity = 2,
             avg_service_minutes = 10,
             waiting = [\<lparr>token = ''DOCTOR-001'', user_name = ''Asha'',
                         Booking.service_id = ''doctor'',
                         estimated_wait_minutes_at_booking = 0\<rparr>,
                        \<lparr>token = ''DOCTOR-002'', user_name = ''Ben'',
                         Booking.service_id = ''doctor'',
                         estimated_wait_minutes_at_booking = 10\<rparr>],
             total_bookings_created = 2, next_token_number = 3, served_count = 0\<rparr>"
  let ?cs = "[MarkServed ''doctor'', MarkServed ''doctor'']"
  let ?s' = "\<lparr>service_id = ''doctor'', display_name = ''Doctor Consultation'',
              daily_capacity = 2, avg_service_minutes = 10, waiting = [],
              total_bookings_created = 2, next_token_number = 3, served_count = 2\<rparr>"
  have h1: "map_of (services ?m) ''doctor'' = Some ?s" by code_simp
  have h2: "daily_capacity ?s \<le> total_bookings_created ?s" by simp
  have h3: "map_of (services (run ascii_upper ?m ?cs)) ''doctor'' = Some ?s'" by code_simp
  have h4: "people_waiting ?s' = 0" by (simp add: people_waiting_def)
  have h5: "strip ''Cara'' \<noteq> []" by code_simp
  have h6: "\<forall>(k, dname, cap, avg)\<in>set demo_configs. 0 \<le> cap" by (simp add: demo_configs_def)
  have h7: "map_of (services (run ascii_upper (VirtualQueueManager_init demo_configs) demo_steps)) ''doctor''
              = Some ?s'"
    by code_simp
  from capacity_gate [where upper = ascii_upper and s = ?s and m = ?m and sid = "''doctor''"
      and cs = ?cs and u = "''Cara''" and cfgs = demo_configs and cs' = demo_steps
      and sid' = "''doctor''" and s' = ?s']
    h1 h2 h3 h4 h5 h6 h7
  show ?thesis unfolding Let_def by simp
qed

section \<open>The status view\<close>

lemma build_services_distinct:
  "distinct (map fst d) \<Longrightarrow> distinct (map fst (build_services d cfgs))"
  by (induction d cfgs rule: build_services.induct) (simp_all add: distinct_update)

lemma init_services_distinct: "distinct (map fst (services (VirtualQueueManager_init cfgs)))"
  by (simp add: VirtualQueueManager_init_def build_services_distinct)

lemma init_services_entries:
  assumes "(k, s) \<in> set (services (VirtualQueueManager_init cfgs))"
  shows "\<exists>dname cap avg. (k, dname, cap, avg) \<in> set cfgs \<and> s = ServiceQueue_init k dname cap avg"
proof -
  from assms have "map_of (services (VirtualQueueManager_init cfgs)) k = Some s"
    using init_services_distinct [of cfgs] by simp
  then show ?thesis by (rule init_services_lookup)
qed

lemma status_of_fields:
  "map fst (status_of s) =
     [''waiting'', ''served'', ''booked_total'', ''capacity'', ''avg_service_minutes'',
      ''est_wait_new_user'']"
  "map_of (status_of s) ''waiting'' = Some (int (length (waiting s)))"
  "map_of (status_of s) ''served'' = Some (served_count s)"
  "map_of (status_of s) ''booked_total'' = Some (total_bookings_created s)"
  "map_of (status_of s) ''capacity'' = Some (daily_capacity s)"
  "map_of (status_of s) ''avg_service_minutes'' = Some (avg_service_minutes s)"
  "map_of (status_of s) ''est_wait_new_user'' =
     Some (int (length (waiting s)) * avg_service_minutes s)"
  by (simp_all add: status_of_def people_waiting_def estimate_wait_minutes_def)

lemma queue_status_nth:
  assumes "i < length (services m)"
  shows "fst (queue_status m) ! i = status_of (snd (services m ! i))"
  using assms by (simp add: queue_status_def)

lemma queue_status_fresh:
  assumes "row \<in> set (fst (queue_status (VirtualQueueManager_init cfgs)))"
  shows "map_of row ''waiting'' = Some 0 \<and> map_of row ''served'' = Some 0
         \<and> map_of row ''booked_total'' = Some 0 \<and> map_of row ''est_wait_new_user'' = Some 0"
proof -
  from assms obtain k s where ks: "(k, s) \<in> set (services (VirtualQueueManager_init cfgs))"
    and row: "row = status_of s"
    by (auto simp: queue_status_def)
  from init_services_entries [OF ks] obtain dname cap avg
    where "s = ServiceQueue_init k dname cap avg" by blast
  with row show ?thesis by (simp add: status_of_fields)
qed

text \<open>
  C8. \<open>queue_status\<close> returns the manager it was given, and one row per entry of the
  services dict, in its order; the row of a service has the keys \<open>waiting\<close>, \<open>served\<close>,
  \<open>booked_total\<close>, \<open>capacity\<close>, \<open>avg_service_minutes\<close>, \<open>est_wait_new_user\<close>, bound to the
  length of its waiting line, its \<open>served_count\<close>, its \<open>total_bookings_created\<close>, its
  \<open>daily_capacity\<close>, its \<open>avg_service_minutes\<close> and the length of its waiting line times
  its \<open>avg_service_minutes\<close>. On a freshly constructed manager every row has \<open>waiting\<close>,
  \<open>served\<close>, \<open>booked_total\<close> and \<open>est_wait_new_user\<close> equal to 0.
\<close>

theorem queue_status_reads:
  "snd (queue_status m) = m
   \<and> length (fst (queue_status m)) = length (services m)
   \<and> (\<forall>i<length (services m).
        map fst (fst (queue_status m) ! i) =
          [''waiting'', ''served'', ''booked_total'', ''capacity'', ''avg_service_minutes'',
           ''est_wait_new_user'']
        \<and> map_of (fst (queue_status m) ! i) ''waiting'' =
            Some (int (length (waiting (snd (services m ! i)))))
        \<and> map_of (fst (queue_status m) ! i) ''served'' = Some (served_count (snd (services m ! i)))
        \<and> map_of (fst (queue_status m) ! i) ''booked_total'' =
            Some (total_bookings_created (snd (services m ! i)))
        \<and> map_of (fst (queue_status m) ! i) ''capacity'' =
            Some (daily_capacity (snd (services m ! i)))
        \<and> map_of (fst (queue_status m) ! i) ''avg_service_minutes'' =
            Some (avg_service_minutes (snd (services m ! i)))
        \<and> map_of (fst (queue_status m) ! i) ''est_wait_new_user'' =
            Some (int (length (waiting (snd (services m ! i))))
                  * avg_service_minutes (snd (services m ! i))))
   \<and> (\<forall>row\<in>set (fst (queue_status (VirtualQueueManager_init cfgs))).
        map_of row ''waiting'' = Some 0 \<and> map_of row ''served'' = Some 0
        \<and> map_of row ''booked_total'' = Some 0 \<and> map_of row ''est_wait_new_user'' = Some 0)"
proof (intro conjI allI impI ballI)
  fix row
  assume "row \<in> set (fst (queue_status (VirtualQueueManager_init cfgs)))"
  then have *: "map_of row ''waiting'' = Some 0 \<and> map_of row ''served'' = Some 0
         \<and> map_of row ''booked_total'' = Some 0 \<and> map_of row ''est_wait_new_user'' = Some 0"
    by (rule queue_status_fresh)
  from * show "map_of row ''waiting'' = Some 0" by simp
  from * show "map_of row ''served'' = Some 0" by simp
  from * show "map_of row ''booked_total'' = Some 0" by simp
  from * show "map_of row ''est_wait_new_user'' = Some 0" by simp
qed (simp_all only: queue_status_nth status_of_fields, simp_all add: queue_status_def)

theorem queue_status_reads_witness:
  "let m = run ascii_upper (VirtualQueueManager_init demo_configs) (take 4 demo_steps);
       fresh_row = [(''waiting'', 0), (''served'', 0), (''booked_total'', 0), (''capacity'', 3),
                    (''avg_service_minutes'', 5), (''est_wait_new_user'', 0)]
   in (1::nat) < length (services m)
      \<and> fst (services m ! 1) = ''doctor''
      \<and> int (length (waiting (snd (services m ! 1)))) = 1
      \<and> avg_service_minutes (snd (services m ! 1)) = 10
      \<and> map_of (fst (queue_status m) ! 1) ''waiting'' = Some 1
      \<and> map_of (fst (queue_status m) ! 1) ''est_wait_new_user'' = Some (1 * 10)
      \<and> fresh_row \<in> set (fst (queue_status (VirtualQueueManager_init demo_configs)))
      \<and> map_of fresh_row ''waiting'' = Some 0
      \<and> map_of fresh_row ''est_wait_new_user'' = Some 0"
proof -
  let ?m = "run ascii_upper (VirtualQueueManager_init demo_configs) (take 4 demo_steps)"
  let ?row = "[(''waiting'', 0::int), (''served'', 0), (''booked_total'', 0), (''capacity'', 3),
               (''avg_service_minutes'', 5), (''est_wait_new_user'', 0)]"
  have h1: "(1::nat) < length (services ?m)" by code_simp
  have h2: "fst (services ?m ! 1) = ''doctor''" by code_simp
  have h3: "int (length (waiting (snd (services ?m ! 1)))) = 1" by code_simp
  have h4: "avg_service_minutes (snd (services ?m ! 1)) = 10" by code_simp
  have h5: "?row \<in> set (fst (queue_status (VirtualQueueManager_init demo_configs)))"
    by code_simp
  from queue_status_reads [of ?m demo_configs] h1
  have "map_of (fst (queue_status ?m) ! 1) ''waiting'' =
          Some (int (length (waiting (snd (services ?m ! 1)))))
        \<and> map_of (fst (queue_status ?m) ! 1) ''est_wait_new_user'' =
            Some (int (length (waiting (snd (services ?m ! 1))))
                  * avg_service_minutes (snd (services ?m ! 1)))"
    by blast
  moreover from queue_status_reads [of ?m demo_configs] h5
  have "map_of ?row ''waiting'' = Some 0 \<and> map_of ?row ''est_wait_new_user'' = Some 0"
    by blast
  ultimately show ?thesis unfolding Let_def using h1 h2 h3 h4 h5 by simp
qed

section \<open>First in, first out\<close>

text \<open>What one call does to one service, and what it adds to the trace of that service.\<close>

lemma step_service_cases [consumes 1, case_names admit serve idle]:
  assumes "map_of (services m) sid = Some s"
  obtains
    (admit) u b s' where "c = BookSlot u sid" "\<not> is_full s"
      "create_booking upper s (strip u) = (Some b, s')"
      "fst (step upper m c) = (True, ''Booking confirmed.'', Some b)"
      "map_of (services (snd (step upper m c))) sid = Some s'"
      "booking_index (snd (step upper m c)) = AList.update (token b) b (booking_index m)"
  | (serve) b rest where "c = MarkServed sid" "waiting s = b # rest"
      "fst (step upper m c) =
         (True, ''Marked served: token '' @ token b @ '' ('' @ user_name b @ '').'', Some b)"
      "map_of (services (snd (step upper m c))) sid =
         Some (s\<lparr>waiting := rest, served_count := served_count s + 1\<rparr>)"
      "booking_index (snd (step upper m c)) = booking_index m"
  | (idle) "admitted_of sid (c, fst (step upper m c)) = []" "served_of sid (c, fst (step upper m c)) = []"
      "map_of (services (snd (step upper m c))) sid = Some s"
      "\<not> fst (fst (step upper m c)) \<or> (\<exists>u sid'. c = BookSlot u sid' \<and> sid' \<noteq> sid)
         \<or> (\<exists>sid'. c = MarkServed sid' \<and> sid' \<noteq> sid)"
proof (cases c)
  case (BookSlot u sid')
  show ?thesis
  proof (cases rule: book_slot_cases [where upper = upper and m = m and u = u and sid = sid'])
    case unknown
    with BookSlot assms show ?thesis by (intro idle) simp_all
  next
    case (empty_name x)
    with BookSlot assms show ?thesis by (intro idle) simp_all
  next
    case (full x)
    with BookSlot assms show ?thesis by (intro idle) simp_all
  next
    case (ok x b x')
    show ?thesis
    proof (cases "sid' = sid")
      case True
      with ok BookSlot assms show ?thesis
        by (intro admit [of u b x']) (simp_all add: update_conv')
    next
      case False
      with ok BookSlot assms show ?thesis
        by (intro idle) (auto simp: update_conv')
    qed
  qed
next
  case (MarkServed sid')
  show ?thesis
  proof (cases rule: mark_served_cases [where m = m and sid = sid'])
    case unknown
    with MarkServed assms show ?thesis by (intro idle) simp_all
  next
    case (empty_queue x)
    with MarkServed assms show ?thesis by (intro idle) simp_all
  next
    case (ok x b rest)
    show ?thesis
    proof (cases "sid' = sid")
      case True
      with ok MarkServed assms show ?thesis
        by (intro serve [of b rest]) (simp_all add: update_conv')
    next
      case False
      with ok MarkServed assms show ?thesis
        by (intro idle) (auto simp: update_conv')
    qed
  qed
qed

lemma admitted_Cons: "admitted sid (x # tr) = admitted_of sid x @ admitted sid tr"
  by (simp add: admitted_def)

lemma served_Cons: "served sid (x # tr) = served_of sid x @ served sid tr"
  by (simp add: served_def)

lemma admitted_Nil [simp]: "admitted sid [] = []"
  by (simp add: admitted_def)

lemma served_Nil [simp]: "served sid [] = []"
  by (simp add: served_def)

lemma create_booking_Some_waiting:
  "create_booking upper s u = (Some b, s') \<Longrightarrow> waiting s' = waiting s @ [b]"
  by (cases "is_full s") (auto simp: create_booking_full create_booking_ok)

text \<open>
  The bookings waiting at the start followed by the bookings admitted during the calls
  are the bookings served during the calls followed by the bookings waiting at the end.
\<close>

lemma fifo_run:
  "map_of (services m) sid = Some s \<Longrightarrow>
   \<exists>s'. map_of (services (run upper m cs)) sid = Some s'
        \<and> waiting s @ admitted sid (trace upper m cs) = served sid (trace upper m cs) @ waiting s'"
proof (induction cs arbitrary: m s)
  case Nil
  then show ?case by simp
next
  case (Cons c cs)
  from Cons.prems show ?case
  proof (cases rule: step_service_cases [where upper = upper and c = c])
    case (admit u b s1)
    from Cons.IH [OF admit(5)] obtain s' where
      "map_of (services (run upper (snd (step upper m c)) cs)) sid = Some s'"
      "waiting s1 @ admitted sid (trace upper (snd (step upper m c)) cs)
         = served sid (trace upper (snd (step upper m c)) cs) @ waiting s'"
      by blast
    with admit create_booking_Some_waiting [OF admit(3)] show ?thesis
      by (simp add: admitted_Cons served_Cons)
  next
    case (serve b rest)
    from Cons.IH [OF serve(4)] obtain s' where
      "map_of (services (run upper (snd (step upper m c)) cs)) sid = Some s'"
      "rest @ admitted sid (trace upper (snd (step upper m c)) cs)
         = served sid (trace upper (snd (step upper m c)) cs) @ waiting s'"
      by auto
    with serve show ?thesis
      by (simp add: admitted_Cons served_Cons)
  next
    case idle
    from Cons.IH [OF idle(3)] obtain s' where
      "map_of (services (run upper (snd (step upper m c)) cs)) sid = Some s'"
      "waiting s @ admitted sid (trace upper (snd (step upper m c)) cs)
         = served sid (trace upper (snd (step upper m c)) cs) @ waiting s'"
      by blast
    with idle show ?thesis
      by (simp add: admitted_Cons served_Cons)
  qed
qed

text \<open>Nothing is admitted to or served from a service that is not configured.\<close>

lemma unknown_service_trace:
  "map_of (services m) sid = None \<Longrightarrow>
   admitted sid (trace upper m cs) = [] \<and> served sid (trace upper m cs) = []"
proof (induction cs arbitrary: m)
  case Nil
  show ?case by simp
next
  case (Cons c cs)
  from Cons.prems have "map_of (services (snd (step upper m c))) sid = None"
    by (simp add: step_lookup_None)
  from Cons.IH [OF this]
  have rest: "admitted sid (trace upper (snd (step upper m c)) cs) = []"
    "served sid (trace upper (snd (step upper m c)) cs) = []" by simp_all
  have "admitted_of sid (c, fst (step upper m c)) = [] \<and> served_of sid (c, fst (step upper m c)) = []"
  proof (cases c)
    case (BookSlot u sid')
    show ?thesis
      by (cases rule: book_slot_cases [where upper = upper and m = m and u = u and sid = sid'])
         (use Cons.prems BookSlot in auto)
  next
    case (MarkServed sid')
    show ?thesis
      by (cases rule: mark_served_cases [where m = m and sid = sid'])
         (use Cons.prems MarkServed in auto)
  qed
  with rest show ?case by (simp add: admitted_Cons served_Cons)
qed

lemma init_waiting_empty:
  "map_of (services (VirtualQueueManager_init cfgs)) sid = Some s \<Longrightarrow> waiting s = []"
  by (auto dest!: init_services_lookup)

lemma fifo_from_init:
  "\<exists>ws. admitted sid (trace upper (VirtualQueueManager_init cfgs) cs)
          = served sid (trace upper (VirtualQueueManager_init cfgs) cs) @ ws"
proof (cases "map_of (services (VirtualQueueManager_init cfgs)) sid")
  case None
  then show ?thesis by (simp add: unknown_service_trace)
next
  case (Some s)
  from fifo_run [where upper = upper and cs = cs, OF Some] init_waiting_empty [OF Some]
  show ?thesis by auto
qed

text \<open>
  C3. Bookings of a service are served in the order of their admission: in the trace of
  any sequence of calls from construction, the bookings returned by the successful
  \<open>mark_served\<close> calls on a service are, in order, the first of the bookings returned by
  the successful \<open>book_slot\<close> calls on it; the Nth one served is the Nth one admitted.
\<close>

theorem fifo_order:
  "served sid (trace upper (VirtualQueueManager_init cfgs) cs) =
     take (length (served sid (trace upper (VirtualQueueManager_init cfgs) cs)))
       (admitted sid (trace upper (VirtualQueueManager_init cfgs) cs))
   \<and> length (served sid (trace upper (VirtualQueueManager_init cfgs) cs))
       \<le> length (admitted sid (trace upper (VirtualQueueManager_init cfgs) cs))
   \<and> (\<forall>N<length (served sid (trace upper (VirtualQueueManager_init cfgs) cs)).
        served sid (trace upper (VirtualQueueManager_init cfgs) cs) ! N
          = admitted sid (trace upper (VirtualQueueManager_init cfgs) cs) ! N)"
proof -
  from fifo_from_init [where upper = upper and sid = sid and cfgs = cfgs and cs = cs]
  obtain ws where
    "admitted sid (trace upper (VirtualQueueManager_init cfgs) cs)
       = served sid (trace upper (VirtualQueueManager_init cfgs) cs) @ ws"
    by blast
  then show ?thesis by (simp add: nth_append)
qed

theorem fifo_order_witness:
  "let tr = trace ascii_upper (VirtualQueueManager_init demo_configs) demo_steps
   in (1::nat) < length (served ''doctor'' tr)
      \<and> served ''doctor'' tr ! 1 = admitted ''doctor'' tr ! 1
      \<and> map user_name (admitted ''doctor'' tr) = [''Asha'', ''Ben'']
      \<and> map user_name (served ''doctor'' tr) = [''Asha'', ''Ben'']"
proof -
  let ?tr = "trace ascii_upper (VirtualQueueManager_init demo_configs) demo_steps"
  have h1: "(1::nat) < length (served ''doctor'' ?tr)" by code_simp
  have h2: "map user_name (admitted ''doctor'' ?tr) = [''Asha'', ''Ben'']" by code_simp
  have h3: "map user_name (served ''doctor'' ?tr) = [''Asha'', ''Ben'']" by code_simp
  from fifo_order [where upper = ascii_upper and sid = "''doctor''" and cfgs = demo_configs
      and cs = demo_steps] h1
  have "served ''doctor'' ?tr ! 1 = admitted ''doctor'' ?tr ! 1" by blast
  with h1 h2 h3 show ?thesis unfolding Let_def by blast
qed

section \<open>The wait estimate\<close>

lemma create_booking_Some_wait:
  "create_booking upper s u = (Some b, s') \<Longrightarrow>
   estimated_wait_minutes_at_booking b = int (length (waiting s)) * avg_service_minutes s"
  by (cases "is_full s") (auto simp: create_booking_full create_booking_ok)

lemma book_slot_wait:
  assumes "map_of (services m) sid = Some s"
    and "book_slot upper m u sid = ((True, msg, Some b), m')"
  shows "estimated_wait_minutes_at_booking b = people_waiting s * avg_service_minutes s
         \<and> people_waiting s = int (length (waiting s))
         \<and> (\<exists>s'. map_of (services m') sid = Some s' \<and> waiting s' = waiting s @ [b])"
proof (cases rule: book_slot_cases [where upper = upper and m = m and u = u and sid = sid])
  case (ok x b' x')
  with assms have "x = s" "b' = b"
    "m' = record_history (m\<lparr>services := AList.update sid x' (services m),
            booking_index := AList.update (token b') b' (booking_index m)\<rparr>)"
    by auto
  with ok create_booking_Some_wait [of upper s "strip u" b x']
    create_booking_Some_waiting [of upper s "strip u" b x']
  show ?thesis by (simp add: people_waiting_def update_conv')
qed (use assms in simp_all)

lemma first_admitted_wait:
  "map_of (services m) sid = Some s \<Longrightarrow> waiting s = [] \<Longrightarrow>
   admitted sid (trace upper m cs) = b # bs \<Longrightarrow> estimated_wait_minutes_at_booking b = 0"
proof (induction cs arbitrary: m s)
  case Nil
  then show ?case by simp
next
  case (Cons c cs)
  from Cons.prems(1) show ?case
  proof (cases rule: step_service_cases [where upper = upper and c = c])
    case (admit u b' s1)
    with Cons.prems(3) have "b' = b" by (simp add: admitted_Cons)
    with admit(3) Cons.prems(2) show ?thesis
      by (simp add: create_booking_Some_wait)
  next
    case (serve b' rest)
    with Cons.prems(2) show ?thesis by simp
  next
    case idle
    with Cons.prems(3) have "admitted sid (trace upper (snd (step upper m c)) cs) = b # bs"
      by (simp add: admitted_Cons)
    from Cons.IH [OF idle(3) Cons.prems(2) this] show ?thesis .
  qed
qed

text \<open>
  C5. The estimate stored in a booking that \<open>book_slot\<close> returns is the number of bookings
  waiting in the service when the call is made, times the service's
  \<open>avg_service_minutes\<close>; the call appends the booking after them. The first booking
  admitted for a service since construction has estimate 0.
\<close>

theorem wait_estimate:
  "(map_of (services m) sid = Some s \<and> book_slot upper m u sid = ((True, msg, Some b), m') \<longrightarrow>
      estimated_wait_minutes_at_booking b = people_waiting s * avg_service_minutes s
      \<and> people_waiting s = int (length (waiting s))
      \<and> (\<exists>s'. map_of (services m') sid = Some s' \<and> waiting s' = waiting s @ [b]))
   \<and> (admitted sid' (trace upper (VirtualQueueManager_init cfgs) cs) = b1 # bs \<longrightarrow>
      estimated_wait_minutes_at_booking b1 = 0)"
proof (intro conjI impI)
  assume "admitted sid' (trace upper (VirtualQueueManager_init cfgs) cs) = b1 # bs"
  then have adm: "admitted sid' (trace upper (VirtualQueueManager_init cfgs) cs) = b1 # bs" .
  show "estimated_wait_minutes_at_booking b1 = 0"
  proof (cases "map_of (services (VirtualQueueManager_init cfgs)) sid'")
    case None
    with adm show ?thesis by (simp add: unknown_service_trace)
  next
    case (Some x)
    from first_admitted_wait [OF Some init_waiting_empty [OF Some] adm] show ?thesis .
  qed
qed (use book_slot_wait [where upper = upper and m = m and sid = sid and s = s and u = u
      and msg = msg and b = b and m' = m'] in blast)+

theorem wait_estimate_witness:
  "let m = run ascii_upper (VirtualQueueManager_init demo_configs) (take 1 demo_steps);
       s = \<lparr>service_id = ''doctor'', display_name = ''Doctor Consultation'', daily_capacity = 2,
             avg_service_minutes = 10,
             waiting = [\<lparr>token = ''DOCTOR-001'', user_name = ''Asha'',
                         Booking.service_id = ''doctor'',
                         estimated_wait_minutes_at_booking = 0\<rparr>],
             total_bookings_created = 1, next_token_number = 2, served_count = 0\<rparr>;
       b = \<lparr>token = ''DOCTOR-002'', user_name = ''Ben'', Booking.service_id = ''doctor'',
             estimated_wait_minutes_at_booking = 10\<rparr>;
       b1 = \<lparr>token = ''DOCTOR-001'', user_name = ''Asha'', Booking.service_id = ''doctor'',
              estimated_wait_minutes_at_booking = 0\<rparr>
   in map_of (services m) ''doctor'' = Some s
      \<and> book_slot ascii_upper m ''Ben'' ''doctor'' =
          ((True, ''Booking confirmed.'', Some b), snd (book_slot ascii_upper m ''Ben'' ''doctor''))
      \<and> estimated_wait_minutes_at_booking b = people_waiting s * avg_service_minutes s
      \<and> people_waiting s * avg_service_minutes s = 1 * 10
      \<and> admitted ''doctor'' (trace ascii_upper (VirtualQueueManager_init demo_configs) demo_steps) = [b1, b]
      \<and> estimated_wait_minutes_at_booking b1 = 0"
proof -
  let ?m = "run ascii_upper (VirtualQueueManager_init demo_configs) (take 1 demo_steps)"
  let ?s = "\<lparr>service_id = ''doctor'', display_name = ''Doctor Consultation'', daily_capacity = 2,
             avg_service_minutes = 10,
             waiting = [\<lparr>token = ''DOCTOR-001'', user_name = ''Asha'',
                         Booking.service_id = ''doctor'',
                         estimated_wait_minutes_at_booking = 0\<rparr>],
             total_bookings_created = 1, next_token_number = 2, served_count = 0\<rparr>"
  let ?b = "\<lparr>token = ''DOCTOR-002'', user_name = ''Ben'', Booking.service_id = ''doctor'',
             estimated_wait_minutes_at_booking = 10\<rparr>"
  let ?b1 = "\<lparr>token = ''DOCTOR-001'', user_name = ''Asha'', Booking.service_id = ''doctor'',
              estimated_wait_minutes_at_booking = 0\<rparr>"
  have h1: "map_of (services ?m) ''doctor'' = Some ?s" by code_simp
  have h2: "book_slot ascii_upper ?m ''Ben'' ''doctor'' =
              ((True, ''Booking confirmed.'', Some ?b), snd (book_slot ascii_upper ?m ''Ben'' ''doctor''))"
    by code_simp
  have h3: "admitted ''doctor'' (trace ascii_upper (VirtualQueueManager_init demo_configs) demo_steps)
              = [?b1, ?b]"
    by code_simp
  have h4: "people_waiting ?s * avg_service_minutes ?s = 1 * 10"
    by (simp add: people_waiting_def)
  from wait_estimate [where upper = ascii_upper and m = ?m and sid = "''doctor''" and s = ?s
      and u = "''Ben''" and msg = "''Booking confirmed.''" and b = ?b
      and m' = "snd (book_slot ascii_upper ?m ''Ben'' ''doctor'')" and sid' = "''doctor''"
      and cfgs = demo_configs and cs = demo_steps and ?b1.0 = ?b1 and bs = "[?b]"]
    h1 h2 h3 h4
  show ?thesis unfolding Let_def by blast
qed

section \<open>Decimal numerals and token numbers\<close>

lemma of_char_digit: "d < 10 \<Longrightarrow> (of_char (char_of (48 + d :: nat)) :: nat) = 48 + d"
  by simp

lemma str_of_nat_digits: "c \<in> set (str_of_nat n) \<Longrightarrow> is_digit c"
proof (induction n rule: str_of_nat.induct)
  case (1 n)
  show ?case
  proof (cases "n < 10")
    case True
    with "1.prems" show ?thesis
      by (simp add: str_of_nat.simps [of n] is_digit_def)
  next
    case False
    have "n mod 10 < 10" by simp
    then have "is_digit (char_of (48 + n mod 10))"
      unfolding is_digit_def by (simp only: of_char_digit) simp
    with False "1.prems" "1.IH" show ?thesis
      by (auto simp: str_of_nat.simps [of n])
  qed
qed

lemma int_of_digits_snoc:
  "int_of_digits (ds @ [c]) = 10 * int_of_digits ds + ((of_char c :: nat) - 48)"
  by (simp add: int_of_digits_def)

lemma int_of_digits_str_of_nat: "int_of_digits (str_of_nat n) = n"
proof (induction n rule: str_of_nat.induct)
  case (1 n)
  show ?case
  proof (cases "n < 10")
    case True
    then show ?thesis
      by (simp add: str_of_nat.simps [of n] int_of_digits_def)
  next
    case False
    have "n mod 10 < 10" by simp
    then have "(of_char (char_of (48 + n mod 10)) :: nat) = 48 + n mod 10"
      by (rule of_char_digit)
    with False "1.IH" show ?thesis
      by (simp add: str_of_nat.simps [of n] int_of_digits_snoc)
  qed
qed

lemma int_of_digits_zeros:
  "int_of_digits (replicate k (CHR ''0'') @ ds) = int_of_digits ds"
proof -
  have "foldl (\<lambda>a c. 10 * a + ((of_char c :: nat) - 48)) 0 (replicate k (CHR ''0'')) = 0"
    by (induction k) simp_all
  then show ?thesis by (simp add: int_of_digits_def)
qed

lemma length_str_of_nat_small: "n < 10 \<Longrightarrow> length (str_of_nat n) = 1"
  by (simp add: str_of_nat.simps [of n])

lemma length_str_of_nat_step:
  "10 \<le> n \<Longrightarrow> length (str_of_nat n) = Suc (length (str_of_nat (n div 10)))"
  by (simp add: str_of_nat.simps [of n])

lemma length_str_of_nat_pos: "Suc 0 \<le> length (str_of_nat n)"
  by (cases "n < 10") (simp_all add: length_str_of_nat_small length_str_of_nat_step)

lemma length_str_of_nat_le3: "n < 1000 \<Longrightarrow> length (str_of_nat n) \<le> 3"
proof -
  assume n: "n < 1000"
  show ?thesis
  proof (cases "n < 10")
    case True
    then show ?thesis by (simp add: length_str_of_nat_small)
  next
    case False
    then have s1: "length (str_of_nat n) = Suc (length (str_of_nat (n div 10)))"
      by (simp add: length_str_of_nat_step)
    show ?thesis
    proof (cases "n div 10 < 10")
      case True
      with s1 show ?thesis by (simp add: length_str_of_nat_small)
    next
      case f2: False
      then have s2: "length (str_of_nat (n div 10)) = Suc (length (str_of_nat (n div 10 div 10)))"
        by (simp add: length_str_of_nat_step)
      from n have "n div 10 div 10 < 10" by simp
      with s1 s2 show ?thesis by (simp add: length_str_of_nat_small)
    qed
  qed
qed

lemma length_str_of_nat_ge4: "1000 \<le> n \<Longrightarrow> 4 \<le> length (str_of_nat n)"
proof -
  assume n: "1000 \<le> n"
  then have "10 \<le> n" "10 \<le> n div 10" "10 \<le> n div 10 div 10" by simp_all
  then have "length (str_of_nat n) = Suc (Suc (Suc (length (str_of_nat (n div 10 div 10 div 10)))))"
    by (simp add: length_str_of_nat_step)
  with length_str_of_nat_pos [of "n div 10 div 10 div 10"] show ?thesis by arith
qed

lemma format_03d_digits: "0 \<le> k \<Longrightarrow> c \<in> set (format_03d k) \<Longrightarrow> is_digit c"
  by (auto simp: format_03d_def zfill_def is_digit_def dest: str_of_nat_digits)

lemma int_of_digits_format_03d: "0 \<le> k \<Longrightarrow> int_of_digits (format_03d k) = nat k"
  by (simp add: format_03d_def zfill_def int_of_digits_zeros int_of_digits_str_of_nat)

lemma length_format_03d_small: "0 \<le> k \<Longrightarrow> k < 1000 \<Longrightarrow> length (format_03d k) = 3"
  using length_str_of_nat_le3 [of "nat k"] by (simp add: format_03d_def zfill_def)

lemma format_03d_large:
  assumes "1000 \<le> k"
  shows "format_03d k = str_of_nat (nat k) \<and> 4 \<le> length (format_03d k)"
proof -
  from assms have "1000 \<le> nat k" by simp
  then have "4 \<le> length (str_of_nat (nat k))" by (rule length_str_of_nat_ge4)
  with assms show ?thesis by (simp add: format_03d_def zfill_def)
qed

lemma format_03d_inj: "0 \<le> j \<Longrightarrow> 0 \<le> k \<Longrightarrow> format_03d j = format_03d k \<Longrightarrow> j = k"
  using int_of_digits_format_03d [of j] int_of_digits_format_03d [of k] by simp

lemma create_booking_Some_fields:
  assumes "create_booking upper s u = (Some b, s')"
  shows "token b = upper (ServiceQueue.service_id s) @ ''-'' @ format_03d (next_token_number s)"
    and "user_name b = u"
    and "Booking.service_id b = ServiceQueue.service_id s"
    and "next_token_number s' = next_token_number s + 1"
    and "total_bookings_created s' = total_bookings_created s + 1"
    and "ServiceQueue.service_id s' = ServiceQueue.service_id s"
    and "daily_capacity s' = daily_capacity s"
    and "served_count s' = served_count s"
  using assms by (cases "is_full s"; auto simp: create_booking_full create_booking_ok)+

text \<open>
  From any state: the bookings admitted for a service during the calls carry the
  consecutive numbers that start at the service's \<open>next_token_number\<close>, and both counters
  advance by the number of admissions.
\<close>

lemma tokens_run:
  "map_of (services m) sid = Some s \<Longrightarrow> ServiceQueue.service_id s = sid \<Longrightarrow>
   \<exists>s'. map_of (services (run upper m cs)) sid = Some s'
        \<and> ServiceQueue.service_id s' = sid
        \<and> next_token_number s' =
            next_token_number s + int (length (admitted sid (trace upper m cs)))
        \<and> total_bookings_created s' =
            total_bookings_created s + int (length (admitted sid (trace upper m cs)))
        \<and> map token (admitted sid (trace upper m cs)) =
            map (\<lambda>k. upper sid @ ''-'' @ format_03d (next_token_number s + int k))
              [0..<length (admitted sid (trace upper m cs))]"
proof (induction cs arbitrary: m s)
  case Nil
  then show ?case by simp
next
  case (Cons c cs)
  from Cons.prems(1) show ?case
  proof (cases rule: step_service_cases [where upper = upper and c = c])
    case (admit u b s1)
    note f = create_booking_Some_fields [OF admit(3)]
    from f(6) Cons.prems(2) have "ServiceQueue.service_id s1 = sid" by simp
    from Cons.IH [OF admit(5) this] obtain s' where s':
      "map_of (services (run upper (snd (step upper m c)) cs)) sid = Some s'"
      "ServiceQueue.service_id s' = sid"
      "next_token_number s' =
         next_token_number s1 + int (length (admitted sid (trace upper (snd (step upper m c)) cs)))"
      "total_bookings_created s' =
         total_bookings_created s1 + int (length (admitted sid (trace upper (snd (step upper m c)) cs)))"
      "map token (admitted sid (trace upper (snd (step upper m c)) cs)) =
         map (\<lambda>k. upper sid @ ''-'' @ format_03d (next_token_number s1 + int k))
           [0..<length (admitted sid (trace upper (snd (step upper m c)) cs))]"
      by blast
    have adm: "admitted sid (trace upper m (c # cs)) = b # admitted sid (trace upper (snd (step upper m c)) cs)"
      using admit(1,4) by (simp add: admitted_Cons)
    have toks: "map token (b # admitted sid (trace upper (snd (step upper m c)) cs)) =
            map (\<lambda>k. upper sid @ ''-'' @ format_03d (next_token_number s + int k))
              [0..<length (b # admitted sid (trace upper (snd (step upper m c)) cs))]"
      using s'(5) f(1,4) Cons.prems(2)
      by (simp add: map_upt_Suc add.assoc del: upt_Suc)
    show ?thesis
    proof (intro exI conjI)
      show "map_of (services (run upper m (c # cs))) sid = Some s'"
        using s'(1) by simp
      show "ServiceQueue.service_id s' = sid" by (rule s'(2))
      show "next_token_number s' =
              next_token_number s + int (length (admitted sid (trace upper m (c # cs))))"
        unfolding adm using s'(3) f(4) by simp
      show "total_bookings_created s' =
              total_bookings_created s + int (length (admitted sid (trace upper m (c # cs))))"
        unfolding adm using s'(4) f(5) by simp
      show "map token (admitted sid (trace upper m (c # cs))) =
              map (\<lambda>k. upper sid @ ''-'' @ format_03d (next_token_number s + int k))
                [0..<length (admitted sid (trace upper m (c # cs)))]"
        unfolding adm by (rule toks)
    qed
  next
    case (serve b rest)
    have "ServiceQueue.service_id (s\<lparr>waiting := rest, served_count := served_count s + 1\<rparr>) = sid"
      using Cons.prems(2) by simp
    from Cons.IH [OF serve(4) this] serve(1,3) show ?thesis
      by (simp add: admitted_Cons)
  next
    case idle
    from Cons.IH [OF idle(3) Cons.prems(2)] idle(1) show ?thesis
      by (simp add: admitted_Cons)
  qed
qed

lemma init_service_fresh:
  "map_of (services (VirtualQueueManager_init cfgs)) sid = Some s \<Longrightarrow>
   ServiceQueue.service_id s = sid \<and> next_token_number s = 1 \<and> total_bookings_created s = 0
   \<and> waiting s = [] \<and> served_count s = 0"
  by (auto dest!: init_services_lookup)

text \<open>The same from construction, where the numbers start at 1.\<close>

lemma tokens_from_init:
  "map token (admitted sid (trace upper (VirtualQueueManager_init cfgs) cs)) =
     map (\<lambda>k. upper sid @ ''-'' @ format_03d (int k + 1))
       [0..<length (admitted sid (trace upper (VirtualQueueManager_init cfgs) cs))]"
proof (cases "map_of (services (VirtualQueueManager_init cfgs)) sid")
  case None
  then show ?thesis by (simp add: unknown_service_trace)
next
  case (Some s)
  from init_service_fresh [OF Some] tokens_run [where upper = upper and cs = cs, OF Some] show ?thesis
    by (auto simp: add.commute)
qed

lemma nth_token_from_init:
  assumes "k < length (admitted sid (trace upper (VirtualQueueManager_init cfgs) cs))"
  shows "token (admitted sid (trace upper (VirtualQueueManager_init cfgs) cs) ! k) =
           upper sid @ ''-'' @ format_03d (int k + 1)"
proof -
  have "token (admitted sid (trace upper (VirtualQueueManager_init cfgs) cs) ! k) =
          map token (admitted sid (trace upper (VirtualQueueManager_init cfgs) cs)) ! k"
    using assms by simp
  also have "\<dots> = upper sid @ ''-'' @ format_03d (int k + 1)"
    using assms by (simp only: tokens_from_init [where upper = upper and sid = sid and cfgs = cfgs and cs = cs]) simp
  finally show ?thesis .
qed

lemma counters_from_init:
  assumes "map_of (services (run upper (VirtualQueueManager_init cfgs) cs)) sid = Some s"
  shows "next_token_number s = total_bookings_created s + 1
         \<and> total_bookings_created s =
             int (length (admitted sid (trace upper (VirtualQueueManager_init cfgs) cs)))"
proof -
  from assms run_lookup_None [of upper "VirtualQueueManager_init cfgs" cs sid]
  have "map_of (services (VirtualQueueManager_init cfgs)) sid \<noteq> None"
    by auto
  then obtain s0 where s0: "map_of (services (VirtualQueueManager_init cfgs)) sid = Some s0"
    by blast
  from init_service_fresh [OF s0] tokens_run [where upper = upper and cs = cs, OF s0] assms show ?thesis by auto
qed

section \<open>Tokens\<close>

text \<open>
  C10. In every state reached from construction, every service has
  \<open>next_token_number = total_bookings_created + 1\<close>, and \<open>total_bookings_created\<close> is the
  number of bookings admitted for it so far; so the booking admitted as the kth of a
  service (position \<open>k - 1\<close> in the list of its admitted bookings) has the token made
  from number k, and the digits after the hyphen denote k; this for whatever case mapping
  \<open>upper\<close> is.
\<close>

theorem token_counter:
  "(map_of (services (run upper (VirtualQueueManager_init cfgs) cs)) sid = Some s \<longrightarrow>
      next_token_number s = total_bookings_created s + 1
      \<and> total_bookings_created s =
          int (length (admitted sid (trace upper (VirtualQueueManager_init cfgs) cs))))
   \<and> (\<forall>k<length (admitted sid (trace upper (VirtualQueueManager_init cfgs) cs)).
        token (admitted sid (trace upper (VirtualQueueManager_init cfgs) cs) ! k) =
          upper sid @ ''-'' @ format_03d (int k + 1)
        \<and> int_of_digits
            (drop (length (upper sid @ ''-''))
               (token (admitted sid (trace upper (VirtualQueueManager_init cfgs) cs) ! k))) = k + 1)"
proof (intro conjI impI allI)
  fix k
  assume "k < length (admitted sid (trace upper (VirtualQueueManager_init cfgs) cs))"
  then have t: "token (admitted sid (trace upper (VirtualQueueManager_init cfgs) cs) ! k) =
          upper sid @ ''-'' @ format_03d (int k + 1)"
    by (rule nth_token_from_init)
  then show "token (admitted sid (trace upper (VirtualQueueManager_init cfgs) cs) ! k) =
          upper sid @ ''-'' @ format_03d (int k + 1)" .
  have "int_of_digits (format_03d (int k + 1)) = nat (int k + 1)"
    by (rule int_of_digits_format_03d) simp
  then show "int_of_digits
            (drop (length (upper sid @ ''-''))
               (token (admitted sid (trace upper (VirtualQueueManager_init cfgs) cs) ! k))) = k + 1"
    by (simp add: t)
qed (use counters_from_init [where upper = upper and cfgs = cfgs and cs = cs and sid = sid
      and s = s] in blast)+

theorem token_counter_witness:
  "let m = run ascii_upper (VirtualQueueManager_init demo_configs) (take 4 demo_steps);
       tr = trace ascii_upper (VirtualQueueManager_init demo_configs) (take 4 demo_steps);
       s = \<lparr>service_id = ''doctor'', display_name = ''Doctor Consultation'', daily_capacity = 2,
             avg_service_minutes = 10,
             waiting = [\<lparr>token = ''DOCTOR-002'', user_name = ''Ben'',
                         Booking.service_id = ''doctor'',
                         estimated_wait_minutes_at_booking = 10\<rparr>],
             total_bookings_created = 2, next_token_number = 3, served_count = 1\<rparr>
   in map_of (services m) ''doctor'' = Some s
      \<and> next_token_number s = total_bookings_created s + 1
      \<and> total_bookings_created s = int (length (admitted ''doctor'' tr))
      \<and> (1::nat) < length (admitted ''doctor'' tr)
      \<and> token (admitted ''doctor'' tr ! 1) = ascii_upper ''doctor'' @ ''-'' @ format_03d (int 1 + 1)
      \<and> token (admitted ''doctor'' tr ! 1) = ''DOCTOR-002''
      \<and> int_of_digits (drop (length (ascii_upper ''doctor'' @ ''-'')) (token (admitted ''doctor'' tr ! 1)))
          = 1 + 1"
proof -
  let ?m = "run ascii_upper (VirtualQueueManager_init demo_configs) (take 4 demo_steps)"
  let ?tr = "trace ascii_upper (VirtualQueueManager_init demo_configs) (take 4 demo_steps)"
  let ?s = "\<lparr>service_id = ''doctor'', display_name = ''Doctor Consultation'', daily_capacity = 2,
             avg_service_minutes = 10,
             waiting = [\<lparr>token = ''DOCTOR-002'', user_name = ''Ben'',
                         Booking.service_id = ''doctor'',
                         estimated_wait_minutes_at_booking = 10\<rparr>],
             total_bookings_created = 2, next_token_number = 3, served_count = 1\<rparr>"
  have h1: "map_of (services ?m) ''doctor'' = Some ?s" by code_simp
  have h2: "(1::nat) < length (admitted ''doctor'' ?tr)" by code_simp
  have h3: "token (admitted ''doctor'' ?tr ! 1) = ''DOCTOR-002''" by code_simp
  from token_counter [where upper = ascii_upper and cfgs = demo_configs
      and cs = "take 4 demo_steps" and sid = "''doctor''" and s = ?s] h1
  have a: "next_token_number ?s = total_bookings_created ?s + 1
      \<and> total_bookings_created ?s = int (length (admitted ''doctor'' ?tr))"
    by blast
  from token_counter [where upper = ascii_upper and cfgs = demo_configs
      and cs = "take 4 demo_steps" and sid = "''doctor''" and s = ?s] h2
  have b: "token (admitted ''doctor'' ?tr ! 1) = ascii_upper ''doctor'' @ ''-'' @ format_03d (int 1 + 1)
      \<and> int_of_digits (drop (length (ascii_upper ''doctor'' @ ''-'')) (token (admitted ''doctor'' ?tr ! 1)))
          = 1 + 1"
    by blast
  from a b h1 h2 h3 show ?thesis unfolding Let_def by blast
qed

lemma tokens_distinct:
  "distinct (map token (admitted sid (trace upper (VirtualQueueManager_init cfgs) cs)))"
proof -
  have "inj_on (\<lambda>k. upper sid @ ''-'' @ format_03d (int k + 1)) A" for A
  proof (rule inj_onI)
    fix j k :: nat
    assume "upper sid @ ''-'' @ format_03d (int j + 1) = upper sid @ ''-'' @ format_03d (int k + 1)"
    then have "format_03d (int j + 1) = format_03d (int k + 1)" by simp
    then have "int j + 1 = int k + 1" by (rule format_03d_inj [rotated 2]) simp_all
    then show "j = k" by simp
  qed
  then show ?thesis
    by (simp only: tokens_from_init [where upper = upper and sid = sid and cfgs = cfgs and cs = cs] distinct_map distinct_upt simp_thms)
qed

text \<open>While capacity lasts, every booking with a proper name is admitted.\<close>

lemma replicate_admits:
  "map_of (services m) sid = Some s \<Longrightarrow> strip u \<noteq> [] \<Longrightarrow>
   total_bookings_created s + int n \<le> daily_capacity s \<Longrightarrow>
   length (admitted sid (trace upper m (replicate n (BookSlot u sid)))) = n"
proof (induction n arbitrary: m s)
  case 0
  show ?case by simp
next
  case (Suc n)
  from Suc.prems(3) have nf: "\<not> is_full s" by (simp add: is_full_def)
  from Suc.prems(1) show ?case
  proof (cases rule: step_service_cases [where upper = upper and c = "BookSlot u sid"])
    case (admit u' b s1)
    note f = create_booking_Some_fields [OF admit(3)]
    from f(5,7) Suc.prems(3)
    have "total_bookings_created s1 + int n \<le> daily_capacity s1" by simp
    from Suc.IH [OF admit(5) Suc.prems(2) this] admit(4) show ?thesis
      by (simp add: admitted_Cons)
  next
    case (serve b rest)
    then show ?thesis by simp
  next
    case idle
    from idle(4) have "\<not> fst (fst (book_slot upper m u sid))" by auto
    moreover have "fst (fst (book_slot upper m u sid))"
      by (cases rule: book_slot_cases [where upper = upper and m = m and u = u and sid = sid])
         (use Suc.prems(1,2) nf in simp_all)
    ultimately show ?thesis by simp
  qed
qed

text \<open>
  C4, as the code has it. The kth booking admitted for a service since construction
  (whatever calls were made in between) has the token made of the service id in upper
  case (the value of \<open>upper\<close> at the id, whatever case mapping \<open>upper\<close> is), a
  hyphen, and the decimal numeral of k padded with zeros to at least three digits: all
  of its characters are digits, they denote k, there are exactly three of them while k is
  below 1000, and from 1000 on the numeral is not padded and has four digits or more. The numbers start at 1 and go up by one, and no token is issued twice.
\<close>

theorem token_format:
  "(\<forall>k<length (admitted sid (trace upper (VirtualQueueManager_init cfgs) cs)).
      token (admitted sid (trace upper (VirtualQueueManager_init cfgs) cs) ! k) =
        upper sid @ ''-'' @ format_03d (int k + 1)
      \<and> (\<forall>c\<in>set (format_03d (int k + 1)). is_digit c)
      \<and> int_of_digits (format_03d (int k + 1)) = k + 1
      \<and> (k + 1 < 1000 \<longrightarrow> length (format_03d (int k + 1)) = 3)
      \<and> (1000 \<le> k + 1 \<longrightarrow>
           format_03d (int k + 1) = str_of_nat (k + 1) \<and> 4 \<le> length (format_03d (int k + 1))))
   \<and> distinct (map token (admitted sid (trace upper (VirtualQueueManager_init cfgs) cs)))"
proof (intro conjI allI impI ballI)
  fix k
  assume "k < length (admitted sid (trace upper (VirtualQueueManager_init cfgs) cs))"
  then show "token (admitted sid (trace upper (VirtualQueueManager_init cfgs) cs) ! k) =
          upper sid @ ''-'' @ format_03d (int k + 1)"
    by (rule nth_token_from_init)
next
  fix k c
  assume "c \<in> set (format_03d (int k + 1))"
  then show "is_digit c" by (rule format_03d_digits [rotated]) simp
next
  fix k :: nat
  have "int_of_digits (format_03d (int k + 1)) = nat (int k + 1)"
    by (rule int_of_digits_format_03d) simp
  then show "int_of_digits (format_03d (int k + 1)) = k + 1" by simp
next
  fix k :: nat
  assume "k + 1 < 1000"
  then show "length (format_03d (int k + 1)) = 3"
    by (intro length_format_03d_small) simp_all
next
  fix k :: nat
  assume "1000 \<le> k + 1"
  then have "1000 \<le> int k + 1" by simp
  then have fl: "format_03d (int k + 1) = str_of_nat (nat (int k + 1))
      \<and> 4 \<le> length (format_03d (int k + 1))"
    by (rule format_03d_large)
  have "nat (int k + 1) = k + 1" by simp
  with fl show "format_03d (int k + 1) = str_of_nat (k + 1)" by simp
  from fl show "4 \<le> length (format_03d (int k + 1))" by (rule conjunct2)
next
  show "distinct (map token (admitted sid (trace upper (VirtualQueueManager_init cfgs) cs)))"
    by (rule tokens_distinct)
qed

theorem token_format_witness:
  "let tr = trace ascii_upper (VirtualQueueManager_init demo_configs) demo_steps
   in (1::nat) < length (admitted ''doctor'' tr)
      \<and> token (admitted ''doctor'' tr ! 1) = ascii_upper ''doctor'' @ ''-'' @ format_03d (int 1 + 1)
      \<and> map token (admitted ''doctor'' tr) = [''DOCTOR-001'', ''DOCTOR-002'']
      \<and> CHR ''2'' \<in> set (format_03d (int 1 + 1)) \<and> is_digit CHR ''2''
      \<and> (1::nat) + 1 < 1000 \<and> length (format_03d (int 1 + 1)) = 3"
proof -
  let ?tr = "trace ascii_upper (VirtualQueueManager_init demo_configs) demo_steps"
  have h1: "(1::nat) < length (admitted ''doctor'' ?tr)" by code_simp
  have h2: "map token (admitted ''doctor'' ?tr) = [''DOCTOR-001'', ''DOCTOR-002'']" by code_simp
  have h3: "CHR ''2'' \<in> set (format_03d (int 1 + 1))" by code_simp
  have h4: "(1::nat) + 1 < 1000" by simp
  from token_format [where upper = ascii_upper and sid = "''doctor''" and cfgs = demo_configs
      and cs = demo_steps] h1
  have "token (admitted ''doctor'' ?tr ! 1) = ascii_upper ''doctor'' @ ''-'' @ format_03d (int 1 + 1)
      \<and> (\<forall>c\<in>set (format_03d (int 1 + 1)). is_digit c)
      \<and> ((1::nat) + 1 < 1000 \<longrightarrow> length (format_03d (int 1 + 1)) = 3)"
    by blast
  with h1 h2 h3 h4 show ?thesis unfolding Let_def by blast
qed

text \<open>
  The specification asks for a three-digit number in every token. A service with
  capacity 1000 admits a thousand bookings, and the thousandth gets a token with four
  digits.
\<close>

theorem token_width_counterexample:
  "token (admitted ''d''
            (trace ascii_upper (VirtualQueueManager_init [(''d'', ''D'', 1000, 1)])
               (replicate 1000 (BookSlot ''u'' ''d''))) ! 999) = ''D-1000''
   \<and> length (drop (length (ascii_upper ''d'' @ ''-'')) ''D-1000'') = 4"
proof -
  let ?m = "VirtualQueueManager_init [(''d'', ''D'', 1000, 1)]"
  have s: "map_of (services ?m) ''d'' = Some (ServiceQueue_init ''d'' ''D'' 1000 1)"
    by code_simp
  have u: "strip ''u'' \<noteq> []" by code_simp
  have "length (admitted ''d'' (trace ascii_upper ?m (replicate 1000 (BookSlot ''u'' ''d'')))) = 1000"
    by (rule replicate_admits [OF s u]) simp
  then have "999 < length (admitted ''d'' (trace ascii_upper ?m (replicate 1000 (BookSlot ''u'' ''d''))))"
    by simp
  from nth_token_from_init [OF this]
  have "token (admitted ''d'' (trace ascii_upper ?m (replicate 1000 (BookSlot ''u'' ''d''))) ! 999) =
          ascii_upper ''d'' @ ''-'' @ format_03d (int 999 + 1)" .
  moreover have "ascii_upper ''d'' @ ''-'' @ format_03d (int 999 + 1) = ''D-1000''" by code_simp
  moreover have "length (drop (length (ascii_upper ''d'' @ ''-'')) ''D-1000'') = 4" by code_simp
  ultimately show ?thesis by simp
qed

section \<open>The booking index\<close>

lemma is_digit_not_hyphen: "is_digit c \<Longrightarrow> c \<noteq> CHR ''-''"
  by (auto simp: is_digit_def)

lemma format_03d_no_hyphen: "0 \<le> k \<Longrightarrow> CHR ''-'' \<notin> set (format_03d k)"
  using format_03d_digits [of k "CHR ''-''"] is_digit_not_hyphen by blast

lemma hyphen_split:
  assumes eq: "xs @ ''-'' @ ds = ys @ ''-'' @ es"
    and ds: "CHR ''-'' \<notin> set ds" and es: "CHR ''-'' \<notin> set es"
  shows "xs = ys \<and> ds = es"
proof -
  from eq have "rev (xs @ ''-'' @ ds) = rev (ys @ ''-'' @ es)" by (rule arg_cong)
  then have r: "rev ds @ CHR ''-'' # rev xs = rev es @ CHR ''-'' # rev ys" by simp
  have "takeWhile (\<lambda>c. c \<noteq> CHR ''-'') (rev ds @ CHR ''-'' # rev xs) = rev ds"
    using ds by (subst takeWhile_append2) auto
  moreover have "takeWhile (\<lambda>c. c \<noteq> CHR ''-'') (rev es @ CHR ''-'' # rev ys) = rev es"
    using es by (subst takeWhile_append2) auto
  ultimately have "rev ds = rev es" using r by simp
  then have "ds = es" by simp
  with eq show ?thesis by simp
qed

lemma token_eq_iff:
  assumes "0 \<le> j" "0 \<le> k"
    and "xs @ ''-'' @ format_03d j = ys @ ''-'' @ format_03d k"
  shows "xs = ys \<and> j = k"
proof -
  from hyphen_split [OF assms(3) format_03d_no_hyphen [OF assms(1)]
      format_03d_no_hyphen [OF assms(2)]]
  have "xs = ys" "format_03d j = format_03d k" by simp_all
  with format_03d_inj [OF assms(1,2)] show ?thesis by simp
qed

lemma created_Cons: "created (x # tr) = created_of x @ created tr"
  by (simp add: created_def)

lemma created_Nil [simp]: "created [] = []"
  by (simp add: created_def)

lemma admitted_of_created_of: "set (admitted_of sid x) \<subseteq> set (created_of x)"
  by (cases "(sid, x)" rule: admitted_of.cases) auto

lemma admitted_created: "set (admitted sid tr) \<subseteq> set (created tr)"
  by (induction tr)
     (auto simp: admitted_Cons created_Cons dest: subsetD [OF admitted_of_created_of])

lemma index_inv_mark_served:
  assumes "index_inv upper m B"
  shows "index_inv upper (snd (mark_served m sid)) B"
proof (cases rule: mark_served_cases [where m = m and sid = sid])
  case unknown
  with assms show ?thesis by simp
next
  case (empty_queue s)
  with assms show ?thesis by simp
next
  case (ok s b rest)
  let ?s' = "s\<lparr>waiting := rest, served_count := served_count s + 1\<rparr>"
  let ?m' = "snd (mark_served m sid)"
  have sv: "map_of (services ?m') = (map_of (services m))(sid \<mapsto> ?s')"
    using ok by (simp add: update_conv')
  have ix: "booking_index ?m' = booking_index m" using ok by simp
  have d: "dom (map_of (services ?m')) = dom (map_of (services m))"
    using ok(1) by (auto simp: sv)
  show ?thesis
    unfolding index_inv_def
  proof (intro conjI allI impI ballI)
    fix k x
    assume "map_of (services ?m') k = Some x"
    with assms ok(1) show "ServiceQueue.service_id x = k" "1 \<le> next_token_number x"
      by (auto simp: sv index_inv_def split: if_splits)
  next
    from assms show "inj_on upper (dom (map_of (services ?m')))"
      by (simp add: d index_inv_def)
  next
    fix b0
    assume b0: "b0 \<in> B"
    with assms show "map_of (booking_index ?m') (token b0) = Some b0"
      by (simp add: ix index_inv_def)
    from b0 assms obtain k x j where w: "map_of (services m) k = Some x" "1 \<le> j"
      "j < next_token_number x" "token b0 = upper k @ ''-'' @ format_03d j"
      unfolding index_inv_def by blast
    show "\<exists>sid s j. map_of (services ?m') sid = Some s \<and> 1 \<le> j \<and> j < next_token_number s
            \<and> token b0 = upper sid @ ''-'' @ format_03d j"
    proof (cases "k = sid")
      case True
      with w ok(1) have "map_of (services ?m') k = Some ?s'" "j < next_token_number ?s'"
        by (simp_all add: sv)
      with w(2,4) show ?thesis by blast
    next
      case False
      with w have "map_of (services ?m') k = Some x" by (simp add: sv)
      with w(2,3,4) show ?thesis by blast
    qed
  qed
qed

lemma index_inv_book_slot:
  assumes inv: "index_inv upper m B"
  shows "index_inv upper (snd (book_slot upper m u sid))
           (B \<union> set (created_of (BookSlot u sid, fst (book_slot upper m u sid))))"
proof (cases rule: book_slot_cases [where upper = upper and m = m and u = u and sid = sid])
  case unknown
  with inv show ?thesis by simp
next
  case (empty_name s)
  with inv show ?thesis by simp
next
  case (full s)
  with inv show ?thesis by simp
next
  case (ok s b s')
  let ?m' = "snd (book_slot upper m u sid)"
  note f = create_booking_Some_fields [OF ok(4)]
  from inv ok(1) have sid: "ServiceQueue.service_id s = sid" and nx: "1 \<le> next_token_number s"
    by (auto simp: index_inv_def)
  have tb: "token b = upper sid @ ''-'' @ format_03d (next_token_number s)"
    using f(1) sid by simp
  have sv: "map_of (services ?m') = (map_of (services m))(sid \<mapsto> s')"
    using ok by (simp add: update_conv')
  have ix: "map_of (booking_index ?m') = (map_of (booking_index m))(token b \<mapsto> b)"
    using ok by (simp add: update_conv')
  have d: "dom (map_of (services ?m')) = dom (map_of (services m))"
    using ok(1) by (auto simp: sv)
  have cr: "created_of (BookSlot u sid, fst (book_slot upper m u sid)) = [b]"
    using ok by simp
  show ?thesis
    unfolding index_inv_def cr
  proof (intro conjI allI impI ballI)
    fix k x
    assume "map_of (services ?m') k = Some x"
    then have x: "(k = sid \<and> x = s') \<or> (k \<noteq> sid \<and> map_of (services m) k = Some x)"
      by (auto simp: sv split: if_splits)
    from inv have "map_of (services m) k = Some x \<longrightarrow>
        ServiceQueue.service_id x = k \<and> 1 \<le> next_token_number x"
      by (simp add: index_inv_def)
    moreover from f(4,6) sid nx
    have "ServiceQueue.service_id s' = sid \<and> 1 \<le> next_token_number s'" by simp
    ultimately show "ServiceQueue.service_id x = k" "1 \<le> next_token_number x"
      using x by blast+
  next
    from inv show "inj_on upper (dom (map_of (services ?m')))"
      by (simp add: d index_inv_def)
  next
    fix b0
    assume "b0 \<in> B \<union> set [b]"
    then consider (new) "b0 = b" | (old) "b0 \<in> B" "b0 \<noteq> b" by auto
    then have "map_of (booking_index ?m') (token b0) = Some b0
      \<and> (\<exists>sid s j. map_of (services ?m') sid = Some s \<and> 1 \<le> j \<and> j < next_token_number s
            \<and> token b0 = upper sid @ ''-'' @ format_03d j)"
    proof cases
      case new
      have "map_of (services ?m') sid = Some s'" by (simp add: sv)
      moreover have "next_token_number s < next_token_number s'" using f(4) by simp
      ultimately show ?thesis using new tb nx by (auto simp: ix)
    next
      case old
      from old(1) inv have i0: "map_of (booking_index m) (token b0) = Some b0"
        by (simp add: index_inv_def)
      from old(1) inv obtain k x j where w: "map_of (services m) k = Some x" "1 \<le> j"
        "j < next_token_number x" "token b0 = upper k @ ''-'' @ format_03d j"
        unfolding index_inv_def by blast
      have ne: "token b0 \<noteq> token b"
      proof
        assume "token b0 = token b"
        with w(4) tb have "upper k @ ''-'' @ format_03d j
                             = upper sid @ ''-'' @ format_03d (next_token_number s)"
          by simp
        from token_eq_iff [OF _ _ this] w(2) nx
        have u: "upper k = upper sid" and j: "j = next_token_number s" by simp_all
        from inv have "inj_on upper (dom (map_of (services m)))" by (simp add: index_inv_def)
        moreover from w(1) ok(1) have "k \<in> dom (map_of (services m))"
          "sid \<in> dom (map_of (services m))" by auto
        ultimately have "k = sid" using u by (auto dest: inj_onD)
        with w(1) ok(1) have "x = s" by simp
        with w(3) j show False by simp
      qed
      have "\<exists>sid s j. map_of (services ?m') sid = Some s \<and> 1 \<le> j \<and> j < next_token_number s
            \<and> token b0 = upper sid @ ''-'' @ format_03d j"
      proof (cases "k = sid")
        case True
        with w(1) ok(1) have "x = s" by simp
        with w(3) f(4) have "j < next_token_number s'" by simp
        moreover have "map_of (services ?m') k = Some s'" using True by (simp add: sv)
        ultimately show ?thesis using w(2,4) by blast
      next
        case False
        with w(1) have "map_of (services ?m') k = Some x" by (simp add: sv)
        with w(2,3,4) show ?thesis by blast
      qed
      with i0 ne show ?thesis by (simp add: ix)
    qed
    then show "map_of (booking_index ?m') (token b0) = Some b0"
      "\<exists>sid s j. map_of (services ?m') sid = Some s \<and> 1 \<le> j \<and> j < next_token_number s
            \<and> token b0 = upper sid @ ''-'' @ format_03d j"
      by blast+
  qed
qed

lemma index_inv_step:
  assumes "index_inv upper m B"
  shows "index_inv upper (snd (step upper m c)) (B \<union> set (created_of (c, fst (step upper m c))))"
proof (cases c)
  case (BookSlot u sid)
  with index_inv_book_slot [OF assms, where u = u and sid = sid] show ?thesis by simp
next
  case (MarkServed sid)
  with index_inv_mark_served [OF assms, of sid] show ?thesis by simp
qed

lemma index_inv_run:
  "index_inv upper m B \<Longrightarrow> index_inv upper (run upper m cs) (B \<union> set (created (trace upper m cs)))"
proof (induction cs arbitrary: m B)
  case Nil
  then show ?case by simp
next
  case (Cons c cs)
  from Cons.IH [OF index_inv_step [OF Cons.prems, of c]] show ?case
    by (simp add: created_Cons Un_assoc)
qed

lemma index_inv_init:
  assumes "inj_on upper (fst ` set cfgs)"
  shows "index_inv upper (VirtualQueueManager_init cfgs) {}"
proof -
  have "dom (map_of (services (VirtualQueueManager_init cfgs))) \<subseteq> fst ` set cfgs"
    by (force dest!: init_services_lookup)
  with assms have "inj_on upper (dom (map_of (services (VirtualQueueManager_init cfgs))))"
    by (rule inj_on_subset)
  then show ?thesis
    by (auto simp: index_inv_def dest!: init_service_fresh)
qed

lemma created_stay_indexed:
  assumes "inj_on upper (fst ` set cfgs)"
    and "b \<in> set (created (trace upper (VirtualQueueManager_init cfgs) cs))"
  shows "map_of (booking_index (run upper (VirtualQueueManager_init cfgs) cs)) (token b) = Some b"
  using index_inv_run [OF index_inv_init [OF assms(1)], of cs] assms(2)
  by (simp add: index_inv_def)

lemma step_index_keys:
  "map_of (booking_index m) t \<noteq> None \<Longrightarrow> map_of (booking_index (snd (step upper m c))) t \<noteq> None"
proof (cases c)
  case (BookSlot u sid)
  assume "map_of (booking_index m) t \<noteq> None"
  then show ?thesis
    by (cases rule: book_slot_cases [where upper = upper and m = m and u = u and sid = sid])
       (simp_all add: BookSlot update_conv')
next
  case (MarkServed sid)
  assume "map_of (booking_index m) t \<noteq> None"
  then show ?thesis
    by (cases rule: mark_served_cases [where m = m and sid = sid])
       (simp_all add: MarkServed)
qed

lemma run_index_keys:
  "dom (map_of (booking_index m)) \<subseteq> dom (map_of (booking_index (run upper m cs)))"
proof (induction cs arbitrary: m)
  case Nil
  show ?case by simp
next
  case (Cons c cs)
  have "dom (map_of (booking_index m)) \<subseteq> dom (map_of (booking_index (snd (step upper m c))))"
    using step_index_keys [where m = m and upper = upper and c = c] by (auto simp: dom_def)
  with Cons.IH [of "snd (step upper m c)"] show ?case by auto
qed

lemma mark_served_index: "booking_index (snd (mark_served m sid)) = booking_index m"
  by (cases rule: mark_served_cases [where m = m and sid = sid]) simp_all

lemma mark_served_pops:
  assumes "map_of (services m) sid = Some s"
    and "mark_served m sid = ((True, msg, Some b), m')"
  shows "\<exists>s'. map_of (services m') sid = Some s' \<and> waiting s = b # waiting s'"
  by (cases rule: mark_served_cases [where m = m and sid = sid])
     (use assms in \<open>auto simp: update_conv'\<close>)

lemma book_slot_inserts:
  assumes "book_slot upper m u sid = ((True, msg, Some b), m')"
  shows "map_of (booking_index m') (token b) = Some b"
  by (cases rule: book_slot_cases [where upper = upper and m = m and u = u and sid = sid])
     (use assms in \<open>auto simp: update_conv'\<close>)

text \<open>
  C9, as the code has it. The keys of the booking index are never removed: the set of
  tokens in the index only grows along any sequence of calls. \<open>mark_served\<close> leaves the
  index as it is while it takes the served booking off the front of the waiting line. A
  successful \<open>book_slot\<close> stores its booking under the booking's token. When the
  configured service ids stay different from one another in upper case (\<open>upper\<close>,
  whatever case mapping it is, is injective on them), every booking ever created since
  construction is still found under its token after any sequence of calls.
\<close>

theorem index_keeps_bookings:
  "dom (map_of (booking_index m)) \<subseteq> dom (map_of (booking_index (run upper m cs)))
   \<and> booking_index (snd (mark_served m sid)) = booking_index m
   \<and> (map_of (services m) sid = Some s \<and> mark_served m sid = ((True, msg, Some b), m') \<longrightarrow>
        (\<exists>s'. map_of (services m') sid = Some s' \<and> waiting s = b # waiting s')
        \<and> booking_index m' = booking_index m)
   \<and> (book_slot upper m u sid = ((True, msg', Some b'), m'') \<longrightarrow>
        map_of (booking_index m'') (token b') = Some b')
   \<and> (inj_on upper (fst ` set cfgs)
        \<and> b0 \<in> set (created (trace upper (VirtualQueueManager_init cfgs) cs')) \<longrightarrow>
        map_of (booking_index (run upper (VirtualQueueManager_init cfgs) cs')) (token b0) = Some b0)"
proof (intro conjI impI)
  show "dom (map_of (booking_index m)) \<subseteq> dom (map_of (booking_index (run upper m cs)))"
    by (rule run_index_keys)
  show "booking_index (snd (mark_served m sid)) = booking_index m"
    by (rule mark_served_index)
next
  assume a: "map_of (services m) sid = Some s \<and> mark_served m sid = ((True, msg, Some b), m')"
  then show "\<exists>s'. map_of (services m') sid = Some s' \<and> waiting s = b # waiting s'"
    using mark_served_pops by blast
  from a have "m' = snd (mark_served m sid)" by simp
  then show "booking_index m' = booking_index m" by (simp add: mark_served_index)
next
  assume "book_slot upper m u sid = ((True, msg', Some b'), m'')"
  then show "map_of (booking_index m'') (token b') = Some b'" by (rule book_slot_inserts)
next
  assume "inj_on upper (fst ` set cfgs)
        \<and> b0 \<in> set (created (trace upper (VirtualQueueManager_init cfgs) cs'))"
  then show "map_of (booking_index (run upper (VirtualQueueManager_init cfgs) cs')) (token b0) = Some b0"
    using created_stay_indexed by blast
qed

theorem index_keeps_bookings_witness:
  "let m = run ascii_upper (VirtualQueueManager_init demo_configs) (take 3 demo_steps);
       asha = \<lparr>token = ''DOCTOR-001'', user_name = ''Asha'', Booking.service_id = ''doctor'',
                estimated_wait_minutes_at_booking = 0\<rparr>;
       ben = \<lparr>token = ''DOCTOR-002'', user_name = ''Ben'', Booking.service_id = ''doctor'',
               estimated_wait_minutes_at_booking = 10\<rparr>;
       s = \<lparr>service_id = ''doctor'', display_name = ''Doctor Consultation'', daily_capacity = 2,
             avg_service_minutes = 10, waiting = [asha, ben], total_bookings_created = 2,
             next_token_number = 3, served_count = 0\<rparr>
   in map_of (services m) ''doctor'' = Some s
      \<and> mark_served m ''doctor'' =
          ((True, ''Marked served: token DOCTOR-001 (Asha).'', Some asha),
           snd (mark_served m ''doctor''))
      \<and> booking_index (snd (mark_served m ''doctor'')) = booking_index m
      \<and> book_slot ascii_upper (VirtualQueueManager_init demo_configs) ''Asha'' ''doctor'' =
          ((True, ''Booking confirmed.'', Some asha),
           snd (book_slot ascii_upper (VirtualQueueManager_init demo_configs) ''Asha'' ''doctor''))
      \<and> map_of (booking_index
                  (snd (book_slot ascii_upper (VirtualQueueManager_init demo_configs) ''Asha'' ''doctor'')))
           (token asha) = Some asha
      \<and> asha \<in> set (created (trace ascii_upper (VirtualQueueManager_init demo_configs) demo_steps))
      \<and> map_of (booking_index (run ascii_upper (VirtualQueueManager_init demo_configs) demo_steps))
           (token asha) = Some asha"
proof -
  let ?i = "VirtualQueueManager_init demo_configs"
  let ?m = "run ascii_upper (VirtualQueueManager_init demo_configs) (take 3 demo_steps)"
  let ?asha = "\<lparr>token = ''DOCTOR-001'', user_name = ''Asha'', Booking.service_id = ''doctor'',
                estimated_wait_minutes_at_booking = 0\<rparr>"
  let ?ben = "\<lparr>token = ''DOCTOR-002'', user_name = ''Ben'', Booking.service_id = ''doctor'',
               estimated_wait_minutes_at_booking = 10\<rparr>"
  let ?s = "\<lparr>service_id = ''doctor'', display_name = ''Doctor Consultation'', daily_capacity = 2,
             avg_service_minutes = 10, waiting = [?asha, ?ben], total_bookings_created = 2,
             next_token_number = 3, served_count = 0\<rparr>"
  have h1: "map_of (services ?m) ''doctor'' = Some ?s" by code_simp
  have h2: "mark_served ?m ''doctor'' =
          ((True, ''Marked served: token DOCTOR-001 (Asha).'', Some ?asha),
           snd (mark_served ?m ''doctor''))"
    by code_simp
  have h3: "book_slot ascii_upper ?i ''Asha'' ''doctor'' =
          ((True, ''Booking confirmed.'', Some ?asha), snd (book_slot ascii_upper ?i ''Asha'' ''doctor''))"
    by code_simp
  have h4: "?asha \<in> set (created (trace ascii_upper ?i demo_steps))" by code_simp
  have h5: "inj_on ascii_upper (fst ` set demo_configs)"
    by (simp add: demo_configs_def ascii_upper_def ascii_upper_char_def)
  note t1 = index_keeps_bookings [where upper = ascii_upper and m = ?m and sid = "''doctor''" and s = ?s
      and msg = "''Marked served: token DOCTOR-001 (Asha).''" and b = ?asha
      and m' = "snd (mark_served ?m ''doctor'')" and cfgs = demo_configs and b0 = ?asha
      and cs' = demo_steps]
  note t2 = index_keeps_bookings [where upper = ascii_upper and m = ?i and sid = "''doctor''" and u = "''Asha''"
      and msg' = "''Booking confirmed.''" and b' = ?asha
      and m'' = "snd (book_slot ascii_upper ?i ''Asha'' ''doctor'')"]
  from t1 h1 h2 have a: "booking_index (snd (mark_served ?m ''doctor'')) = booking_index ?m"
    by blast
  from t2 h3 have b: "map_of (booking_index (snd (book_slot ascii_upper ?i ''Asha'' ''doctor'')))
           (token ?asha) = Some ?asha"
    by blast
  from t1 h4 h5 have c: "map_of (booking_index (run ascii_upper ?i demo_steps)) (token ?asha) = Some ?asha"
    by blast
  from a b c h1 h2 h3 h4 show ?thesis unfolding Let_def by blast
qed

text \<open>
  The specification keeps every booking in the index for ever. Two services whose ids
  differ only in case issue the same token, and the second booking takes the place of the
  first in the index.
\<close>

theorem index_overwrite_counterexample:
  "created (trace ascii_upper (VirtualQueueManager_init [(''a'', ''Desk a'', 5, 1), (''A'', ''Desk A'', 5, 1)])
             [BookSlot ''x'' ''a'', BookSlot ''y'' ''A'']) =
     [\<lparr>token = ''A-001'', user_name = ''x'', Booking.service_id = ''a'',
       estimated_wait_minutes_at_booking = 0\<rparr>,
      \<lparr>token = ''A-001'', user_name = ''y'', Booking.service_id = ''A'',
       estimated_wait_minutes_at_booking = 0\<rparr>]
   \<and> map_of (booking_index
               (run ascii_upper (VirtualQueueManager_init [(''a'', ''Desk a'', 5, 1), (''A'', ''Desk A'', 5, 1)])
                  [BookSlot ''x'' ''a'', BookSlot ''y'' ''A'']))
        ''A-001'' =
       Some \<lparr>token = ''A-001'', user_name = ''y'', Booking.service_id = ''A'',
              estimated_wait_minutes_at_booking = 0\<rparr>
   \<and> \<lparr>token = ''A-001'', user_name = ''y'', Booking.service_id = ''A'',
       estimated_wait_minutes_at_booking = 0\<rparr>
      \<noteq> \<lparr>token = ''A-001'', user_name = ''x'', Booking.service_id = ''a'',
          estimated_wait_minutes_at_booking = 0\<rparr>"
  by code_simp

end
